theory Spec2Isabelle
  imports Main "HOL-Library.AList"
begin

section \<open>Data model (shared/types)\<close>

text \<open>
  The enum of raw indexing statuses reported by the status-check API, and the enum of
  task states the pipeline derives from them. Both are closed string enums in the
  source; only equality is ever used on them.
\<close>

datatype IndexingStatus =
    SubmittedAndIndexed
  | DuplicateWithoutUserSelectedCanonical
  | CrawledCurrentlyNotIndexed
  | DiscoveredCurrentlyNotIndexed
  | PageWithRedirect
  | URLIsUnknownToGoogle
  | RateLimited
  | Forbidden
  | Error

datatype PageStatus = Pending | Processing | Completed | Failed

text \<open>
  A cache entry of the main variant. \<open>lastCheckedAt\<close> is an ISO-8601 string in the
  source, written by \<^verbatim>\<open>new Date().toISOString()\<close> and read back by
  \<^verbatim>\<open>new Date(page.lastCheckedAt)\<close>; the two conversions are inverse to each other at
  millisecond precision, so the field is modelled by the time value it denotes
  (milliseconds since the epoch). A cache file edited by hand so that the field is not
  a date is outside the model.
\<close>

record Page =
  status :: PageStatus
  indexingStatus :: IndexingStatus
  lastCheckedAt :: int

text \<open>
  A cache entry of the second variant:
  \<^verbatim>\<open>{ status: Status; lastCheckedAt: string }\<close>, where \<^verbatim>\<open>Status\<close> is the enum of the nine raw
  statuses.
\<close>

record StatusEntry =
  status2 :: IndexingStatus
  lastCheckedAt2 :: int

section \<open>Constants\<close>

definition CACHE_TIMEOUT :: int where
  "CACHE_TIMEOUT = 1000 * 60 * 60 * 24 * 14"

record rpm_quota =
  retries :: nat
  waitingTime :: int

definition QUOTA :: rpm_quota where
  "QUOTA = \<lparr>retries = 3, waitingTime = 60000\<rparr>"

section \<open>Classification and staleness, main variant\<close>

definition indexableStatuses :: "IndexingStatus list" where
  "indexableStatuses =
     [DiscoveredCurrentlyNotIndexed, CrawledCurrentlyNotIndexed, URLIsUnknownToGoogle,
      Forbidden, Error]"

text \<open>
  The conditional expression that computes \<open>status\<close> of a freshly checked page in the
  batch worker (an unnamed expression in the source).
\<close>

definition classify :: "IndexingStatus \<Rightarrow> PageStatus" where
  "classify s =
     (if s \<in> set indexableStatuses then Pending
      else if s = RateLimited then Failed
      else Completed)"

text \<open>
  \<open>shouldRecheck\<close> of the main variant; \<open>now\<close> is the value \<^verbatim>\<open>Date.now()\<close> returns when
  the closure runs.
\<close>

definition shouldRecheck :: "int \<Rightarrow> Page \<Rightarrow> bool" where
  "shouldRecheck now page =
     (let isFailed = (status page = Failed);
          isOld = (lastCheckedAt page < now - CACHE_TIMEOUT)
      in isOld \<or> isFailed)"

section \<open>Staleness, second variant\<close>

definition indexableStatuses2 :: "IndexingStatus list" where
  "indexableStatuses2 =
     [DiscoveredCurrentlyNotIndexed, CrawledCurrentlyNotIndexed, URLIsUnknownToGoogle,
      Forbidden, Error, RateLimited]"

definition shouldRecheck2 :: "int \<Rightarrow> IndexingStatus \<Rightarrow> int \<Rightarrow> bool" where
  "shouldRecheck2 now s checkedAt =
     (let shouldIndexIt = (s \<in> set indexableStatuses2);
          isOld = (checkedAt < now - CACHE_TIMEOUT)
      in shouldIndexIt \<and> isOld)"

section \<open>Effects: the outside world, the cache file, the trace\<close>

text \<open>
  The functions imported from \<^verbatim>\<open>./shared/auth\<close>, \<^verbatim>\<open>./shared/gsc\<close> and
  \<^verbatim>\<open>./shared/sitemap\<close> and the system clock are parameters of the model. The state of
  everything outside the process (the remote services, the clock) is a value of an
  arbitrary type \<open>'w\<close>; an asynchronous call takes the current world and returns its
  result together with the next world. \<open>checkSiteUrl\<close> returns \<open>None\<close> when it ends the
  process itself. The last field is not a function of the repository: while several
  status checks are in flight, \<open>nextToReturn w inflight\<close> tells which of them returns
  next (its position in the list, taken modulo the length), so that the order in
  which concurrent checks return is the environment's choice.
\<close>

record 'w collaborators =
  dateNow :: "'w \<Rightarrow> int \<times> 'w"
  getAccessToken ::
    "'w \<Rightarrow> string option \<Rightarrow> string option \<Rightarrow> string option \<Rightarrow> string option \<times> 'w"
  convertToSiteUrl :: "string \<Rightarrow> string"
  convertToFilePath :: "string \<Rightarrow> string"
  checkSiteUrl :: "'w \<Rightarrow> string \<Rightarrow> string \<Rightarrow> string option \<times> 'w"
  getSitemapUrls :: "'w \<Rightarrow> string \<Rightarrow> string \<Rightarrow> (string list \<times> string list) \<times> 'w"
  checkCustomUrls :: "string \<Rightarrow> string list \<Rightarrow> string list"
  getPageIndexingStatus :: "'w \<Rightarrow> string \<Rightarrow> string \<Rightarrow> string \<Rightarrow> IndexingStatus \<times> 'w"
  getPublishMetadata :: "'w \<Rightarrow> string \<Rightarrow> string \<Rightarrow> nat \<Rightarrow> int \<times> 'w"
  requestIndexing :: "'w \<Rightarrow> string \<Rightarrow> string \<Rightarrow> 'w"
  nextToReturn :: "'w \<Rightarrow> string list \<Rightarrow> nat"

text \<open>
  The cache directory is a map from paths to file contents. A file either fails to
  parse as JSON or parses to an object, which is an association list in key order
  (the keys are URLs, not array indices, so \<^verbatim>\<open>Object.keys\<close> lists them in insertion
  order). \<open>'e\<close> is the type of the entries: \<open>Page\<close> in the main variant, \<open>StatusEntry\<close>
  in the second.
\<close>

datatype 'e cache_file = Malformed | Parsed "(string \<times> 'e) list"

text \<open>
  What a run does to the outside, in order: reading the cache file, each status check
  with the status it returned, the write of the cache file with the mapping written,
  each publish-metadata query with its retry budget and the code it returned, and each
  indexing request.
\<close>

datatype 'e event =
    ReadFileSync string
  | GetPageIndexingStatus string IndexingStatus
  | WriteFileSync string "(string \<times> 'e) list"
  | GetPublishMetadata string nat int
  | RequestIndexing string

text \<open>
  A run ends by \<^verbatim>\<open>process.exit(code)\<close>, by an uncaught exception (\<^verbatim>\<open>JSON.parse\<close> of a
  malformed cache file), or by reaching the end of \<open>index\<close>.
\<close>

datatype outcome = Exited nat | Thrown | Finished

record ('w, 'e) run =
  outcome :: outcome
  trace :: "'e event list"
  world :: 'w
  disk :: "string \<Rightarrow> 'e cache_file option"

section \<open>Options\<close>

record quota_options =
  rpmRetry :: "bool option"

record IndexOptions =
  client_email :: "string option"
  private_key :: "string option"
  path :: "string option"
  urls :: "string list option"
  quota :: "quota_options option"

text \<open>Truthiness of a string that may be undefined.\<close>

definition truthy :: "string option \<Rightarrow> bool" where
  "truthy v = (case v of None \<Rightarrow> False | Some s \<Rightarrow> s \<noteq> [])"

text \<open>\<^verbatim>\<open>s.split(",")\<close>.\<close>

fun split_comma :: "string \<Rightarrow> string list" where
  "split_comma [] = [[]]"
| "split_comma (ch # cs) =
     (if ch = CHR '','' then [] # split_comma cs
      else (case split_comma cs of [] \<Rightarrow> [[ch]] | w # ws \<Rightarrow> (ch # w) # ws))"

text \<open>
  Lines 48 to 65 of \<open>index\<close>: an option that is not set is taken from the command-line
  arguments \<open>args\<close> (the result of \<open>parseCommandLineArgs\<close>) or from the process
  environment \<open>env\<close>.
\<close>

definition resolveCredential ::
  "string option \<Rightarrow> string option \<Rightarrow> string option \<Rightarrow> string option" where
  "resolveCredential opt arg var =
     (if \<not> truthy opt then (if truthy arg then arg else var) else opt)"

definition resolveUrls :: "(string \<Rightarrow> string option) \<Rightarrow> IndexOptions \<Rightarrow> string list option" where
  "resolveUrls args options =
     (case urls options of
        Some us \<Rightarrow> Some us
      | None \<Rightarrow>
          (case args ''urls'' of
             None \<Rightarrow> None
           | Some s \<Rightarrow> if s = [] then None else Some (split_comma s)))"

definition resolveQuota ::
  "(string \<Rightarrow> string option) \<Rightarrow> (string \<Rightarrow> string option) \<Rightarrow> IndexOptions \<Rightarrow> quota_options" where
  "resolveQuota args env options =
     (case quota options of
        Some q \<Rightarrow> q
      | None \<Rightarrow>
          \<lparr>rpmRetry =
             Some (args ''rpm-retry'' = Some ''true'' \<or> env ''GIS_QUOTA_RPM_RETRY'' = Some ''true'')\<rparr>)"

text \<open>
  The argument \<^verbatim>\<open>retriesOnRateLimit: options.quota.rpmRetry ? QUOTA.rpm.retries : 0\<close>
  of the publish-metadata query; an undefined \<open>rpmRetry\<close> is falsy.
\<close>

definition retriesOnRateLimit :: "quota_options \<Rightarrow> nat" where
  "retriesOnRateLimit q = (if rpmRetry q = Some True then retries QUOTA else 0)"

section \<open>URL enumeration\<close>

text \<open>
  Lines 80 to 97 (93 to 110 in the second variant, where the sitemap collaborator is
  named \<open>getSitemapPages\<close>): the custom URL list when it is not empty, the URLs of the
  sitemaps otherwise; \<open>Inl 1\<close> is \<^verbatim>\<open>process.exit(1)\<close> when no sitemap is found.
\<close>

definition enumerateUrls ::
  "'w collaborators \<Rightarrow> 'w \<Rightarrow> string \<Rightarrow> string \<Rightarrow> string list option
     \<Rightarrow> (nat + string list) \<times> 'w" where
  "enumerateUrls c w accessToken siteUrl optUrls =
     (let urlList = (case optUrls of None \<Rightarrow> [] | Some us \<Rightarrow> us) in
      if length urlList = 0 then
        (let ((sitemaps, urlsFromSitemaps), w') = getSitemapUrls c w accessToken siteUrl in
         if length sitemaps = 0 then (Inl 1, w') else (Inr urlsFromSitemaps, w'))
      else (Inr (checkCustomUrls c siteUrl urlList), w))"

section \<open>The cache file\<close>

text \<open>
  \<^verbatim>\<open>existsSync(cachePath) ? JSON.parse(readFileSync(cachePath, "utf8")) : {}\<close>;
  \<open>Inl ()\<close> is the exception \<open>JSON.parse\<close> throws.
\<close>

definition loadCache :: "(string \<Rightarrow> 'e cache_file option) \<Rightarrow> string \<Rightarrow> unit + (string \<times> 'e) list" where
  "loadCache files cachePath =
     (case files cachePath of
        None \<Rightarrow> Inr []
      | Some Malformed \<Rightarrow> Inl ()
      | Some (Parsed kvs) \<Rightarrow> Inr kvs)"

definition readEvents :: "(string \<Rightarrow> 'e cache_file option) \<Rightarrow> string \<Rightarrow> 'e event list" where
  "readEvents files cachePath =
     (case files cachePath of None \<Rightarrow> [] | Some f \<Rightarrow> [ReadFileSync cachePath])"

section \<open>The batch runner\<close>

text \<open>
  Modelled from the spec: \<open>batch\<close> of \<^verbatim>\<open>./shared/utils\<close> is not among the sources. By
  section 4.3 of the specification it partitions the items into consecutive chunks of
  at most \<open>batchSize\<close>, dispatches all items of a chunk concurrently, and starts the
  next chunk only when every item of the current one has settled.
\<close>

function createChunks :: "nat \<Rightarrow> 'a list \<Rightarrow> 'a list list" where
  "createChunks n xs =
     (if xs = [] \<or> n = 0 then [] else take n xs # createChunks n (drop n xs))"
  by pat_completeness auto
termination
  by (relation "measure (\<lambda>(n, xs). length xs)") auto

declare createChunks.simps [simp del]

text \<open>
  The state the batch worker closes over: the cache mapping \<open>pages\<close>, the lists of
  URLs per raw status, and with them the world and the trace so far.
\<close>

record ('w, 'e) check_state =
  pages :: "(string \<times> 'e) list"
  pagesPerIndexingStatus :: "IndexingStatus \<Rightarrow> string list"
  cworld :: 'w
  ctrace :: "'e event list"

text \<open>
  On one event loop, dispatching a chunk runs every worker up to its first \<^verbatim>\<open>await\<close>
  before any awaited call returns. A worker whose URL has a cached page that need not
  be rechecked has no \<^verbatim>\<open>await\<close> and finishes at once, adding its URL to the list of
  the cached status; the other workers have started their status check and continue
  when it returns. \<open>worker_dispatch\<close> is this first phase: it returns the URLs whose
  check is in flight. It reads \<open>pages\<close> and never writes it.
\<close>

primrec worker_dispatch ::
  "'w collaborators \<Rightarrow> string list \<Rightarrow> ('w, Page) check_state
     \<Rightarrow> string list \<times> ('w, Page) check_state" where
  "worker_dispatch c [] st = ([], st)"
| "worker_dispatch c (url # rest) st =
     (case map_of (pages st) url of
        None \<Rightarrow>
          (let (inflight, st') = worker_dispatch c rest st in (url # inflight, st'))
      | Some page \<Rightarrow>
          (let (now, w') = dateNow c (cworld st) in
           if shouldRecheck now page then
             (let (inflight, st') = worker_dispatch c rest (st\<lparr>cworld := w'\<rparr>)
              in (url # inflight, st'))
           else
             worker_dispatch c rest
               (st\<lparr>cworld := w',
                   pagesPerIndexingStatus :=
                     (pagesPerIndexingStatus st)
                       (indexingStatus page :=
                          pagesPerIndexingStatus st (indexingStatus page) @ [url])\<rparr>)))"

text \<open>
  Modelled from the spec: the second phase of a chunk, which \<open>batch\<close> awaits before it
  starts the next chunk. The checks in flight return one at a time, in an order the
  code does not determine (section 4.3: the ordering of side effects within a chunk is
  unspecified); when a check returns, its worker runs to its end. \<open>settleAll pick
  resume inflight\<close> lets the environment pick the check that returns next, runs
  \<open>resume\<close> for its URL, and goes on with the checks still in flight until none is
  left.
\<close>

definition removeAt :: "nat \<Rightarrow> 'a list \<Rightarrow> 'a list" where
  "removeAt i xs = take i xs @ drop (Suc i) xs"

function settleAll ::
  "('w \<Rightarrow> string list \<Rightarrow> nat) \<Rightarrow> (string \<Rightarrow> ('w, 'e) check_state \<Rightarrow> ('w, 'e) check_state)
     \<Rightarrow> string list \<Rightarrow> ('w, 'e) check_state \<Rightarrow> ('w, 'e) check_state" where
  "settleAll pick resume inflight st =
     (if inflight = [] then st
      else (let i = pick (cworld st) inflight mod length inflight
            in settleAll pick resume (removeAt i inflight) (resume (inflight ! i) st)))"
  by pat_completeness auto
termination
proof (relation "measure (\<lambda>(pick, resume, inflight, st). length inflight)", goal_cases)
  case 1
  show ?case by simp
next
  case (2 pick resume inflight st i)
  then have "i < length inflight" by simp
  then show ?case by (simp add: removeAt_def)
qed

declare settleAll.simps [simp del]

text \<open>
  What the worker of the main variant does when its status check returns (lines 130
  to 145): it builds the page from the status returned, stamps it with the clock
  reading of that moment, stores it under the URL and adds the URL to the list of its
  status.
\<close>

definition worker_resume ::
  "'w collaborators \<Rightarrow> string \<Rightarrow> string \<Rightarrow> string \<Rightarrow> ('w, Page) check_state
     \<Rightarrow> ('w, Page) check_state" where
  "worker_resume c accessToken siteUrl url st =
     (let (s, w1) = getPageIndexingStatus c (cworld st) accessToken siteUrl url;
          (now, w2) = dateNow c w1;
          page = \<lparr>status = classify s, indexingStatus = s, lastCheckedAt = now\<rparr>
      in st\<lparr>pages := AList.update url page (pages st),
            pagesPerIndexingStatus :=
              (pagesPerIndexingStatus st) (s := pagesPerIndexingStatus st s @ [url]),
            cworld := w2,
            ctrace := ctrace st @ [GetPageIndexingStatus url s]\<rparr>)"

definition worker_settle ::
  "'w collaborators \<Rightarrow> string \<Rightarrow> string \<Rightarrow> string list \<Rightarrow> ('w, Page) check_state
     \<Rightarrow> ('w, Page) check_state" where
  "worker_settle c accessToken siteUrl inflight st =
     settleAll (nextToReturn c) (worker_resume c accessToken siteUrl) inflight st"

definition batch_chunk ::
  "'w collaborators \<Rightarrow> string \<Rightarrow> string \<Rightarrow> string list \<Rightarrow> ('w, Page) check_state
     \<Rightarrow> ('w, Page) check_state" where
  "batch_chunk c accessToken siteUrl chunk st =
     (let (inflight, st') = worker_dispatch c chunk st
      in worker_settle c accessToken siteUrl inflight st')"

primrec batch_chunks ::
  "'w collaborators \<Rightarrow> string \<Rightarrow> string \<Rightarrow> string list list \<Rightarrow> ('w, Page) check_state
     \<Rightarrow> ('w, Page) check_state" where
  "batch_chunks c accessToken siteUrl [] st = st"
| "batch_chunks c accessToken siteUrl (chunk # rest) st =
     batch_chunks c accessToken siteUrl rest (batch_chunk c accessToken siteUrl chunk st)"

text \<open>\<^verbatim>\<open>await batch(worker, urls, 50, ...)\<close> of the main variant.\<close>

definition batch ::
  "'w collaborators \<Rightarrow> string \<Rightarrow> string \<Rightarrow> string list \<Rightarrow> ('w, Page) check_state
     \<Rightarrow> ('w, Page) check_state" where
  "batch c accessToken siteUrl urlList st =
     batch_chunks c accessToken siteUrl (createChunks 50 urlList) st"

section \<open>Submission\<close>

definition shouldBeSubmitted :: "Page \<Rightarrow> bool" where
  "shouldBeSubmitted page = (status page = Pending)"

text \<open>
  \<^verbatim>\<open>Object.keys(pages).filter((url) => shouldBeSubmitted(pages[url]))\<close>.
\<close>

definition submissionQueue :: "(string \<times> Page) list \<Rightarrow> string list" where
  "submissionQueue ps =
     filter (\<lambda>url. case map_of ps url of None \<Rightarrow> False | Some page \<Rightarrow> shouldBeSubmitted page)
       (map fst ps)"

text \<open>
  The loop \<^verbatim>\<open>for (const url of queue)\<close>, the same in both variants. For a status
  below 400 the loop only prints a line and for any other status but 404 it does
  nothing, so the model has one branch for both. The result is the events of the loop
  and the world after it.
\<close>

primrec submitQueue ::
  "'w collaborators \<Rightarrow> string \<Rightarrow> quota_options \<Rightarrow> string list \<Rightarrow> 'w \<Rightarrow> 'e event list \<times> 'w" where
  "submitQueue c accessToken q [] w = ([], w)"
| "submitQueue c accessToken q (url # rest) w =
     (let (st, w1) = getPublishMetadata c w accessToken url (retriesOnRateLimit q) in
      if st = 404 then
        (let w2 = requestIndexing c w1 accessToken url;
             (evs, w3) = submitQueue c accessToken q rest w2
         in (GetPublishMetadata url (retriesOnRateLimit q) st # RequestIndexing url # evs, w3))
      else
        (let (evs, w3) = submitQueue c accessToken q rest w1
         in (GetPublishMetadata url (retriesOnRateLimit q) st # evs, w3)))"

section \<open>The pipeline, main variant\<close>

text \<open>
  Lines 99 to 197 of \<open>index\<close>: load the cache, check the statuses, write the cache,
  select the queue, submit. Creating the directory \<^verbatim>\<open>.cache\<close> is not modelled: the
  disk is a flat map from paths to contents.
\<close>

definition checkAndSubmit ::
  "'w collaborators \<Rightarrow> 'w \<Rightarrow> (string \<Rightarrow> Page cache_file option) \<Rightarrow> string \<Rightarrow> string \<Rightarrow> string
     \<Rightarrow> string list \<Rightarrow> quota_options \<Rightarrow> ('w, Page) run" where
  "checkAndSubmit c w files accessToken siteUrl cachePath urlList q =
     (case loadCache files cachePath of
        Inl _ \<Rightarrow>
          \<lparr>outcome = Thrown, trace = readEvents files cachePath, world = w, disk = files\<rparr>
      | Inr cached \<Rightarrow>
          (let st = batch c accessToken siteUrl urlList
                      \<lparr>pages = cached, pagesPerIndexingStatus = (\<lambda>_. []), cworld = w,
                       ctrace = readEvents files cachePath\<rparr>;
               queue = submissionQueue (pages st);
               (evs, w') = submitQueue c accessToken q queue (cworld st)
           in \<lparr>outcome = Finished,
               trace = ctrace st @ [WriteFileSync cachePath (pages st)] @ evs,
               world = w',
               disk = files(cachePath \<mapsto> Parsed (pages st))\<rparr>))"

definition cachePathOf :: "'w collaborators \<Rightarrow> string \<Rightarrow> string" where
  "cachePathOf c siteUrl = ''.cache/'' @ convertToFilePath c siteUrl @ ''.json''"

text \<open>
  Lines 41 to 97 of \<open>index\<close> (43 to 110 in the second variant, which differs in its
  progress output only): the input, the options, the access token, the site, the
  URLs. \<open>Inl\<close> is \<^verbatim>\<open>process.exit\<close> with its code; \<open>Inr\<close> carries the access token, the
  site URL as checked, the cache path, the URLs and the world. The cache path is
  computed from the site URL as converted from the input, before \<open>checkSiteUrl\<close>
  replaces it.
\<close>

definition prepare ::
  "'w collaborators \<Rightarrow> 'w \<Rightarrow> (string \<Rightarrow> string option) \<Rightarrow> (string \<Rightarrow> string option)
     \<Rightarrow> string option \<Rightarrow> IndexOptions
     \<Rightarrow> (nat \<times> 'w) + (string \<times> string \<times> string \<times> string list \<times> 'w)" where
  "prepare c w args env input options =
     (case input of
        None \<Rightarrow> Inl (1, w)
      | Some inp \<Rightarrow>
          if inp = [] then Inl (1, w)
          else
            (let (token, w1) =
                   getAccessToken c w
                     (resolveCredential (client_email options) (args ''client-email'')
                        (env ''GIS_CLIENT_EMAIL''))
                     (resolveCredential (private_key options) (args ''private-key'')
                        (env ''GIS_PRIVATE_KEY''))
                     (resolveCredential (path options) (args ''path'') (env ''GIS_PATH''));
                 siteUrl = convertToSiteUrl c inp;
                 cachePath = cachePathOf c siteUrl
             in case token of
                  None \<Rightarrow> Inl (1, w1)
                | Some accessToken \<Rightarrow>
                    if accessToken = [] then Inl (1, w1)
                    else
                      (case checkSiteUrl c w1 accessToken siteUrl of
                         (None, w2) \<Rightarrow> Inl (1, w2)
                       | (Some siteUrl', w2) \<Rightarrow>
                           (case enumerateUrls c w2 accessToken siteUrl'
                                   (resolveUrls args options) of
                              (Inl code, w3) \<Rightarrow> Inl (code, w3)
                            | (Inr urlList, w3) \<Rightarrow>
                                Inr (accessToken, siteUrl', cachePath, urlList, w3)))))"

text \<open>\<open>index\<close> of the main variant.\<close>

definition index ::
  "'w collaborators \<Rightarrow> 'w \<Rightarrow> (string \<Rightarrow> Page cache_file option) \<Rightarrow> (string \<Rightarrow> string option)
     \<Rightarrow> (string \<Rightarrow> string option) \<Rightarrow> string option \<Rightarrow> IndexOptions \<Rightarrow> ('w, Page) run" where
  "index c w files args env input options =
     (case prepare c w args env input options of
        Inl (code, w') \<Rightarrow> \<lparr>outcome = Exited code, trace = [], world = w', disk = files\<rparr>
      | Inr (accessToken, siteUrl, cachePath, urlList, w') \<Rightarrow>
          checkAndSubmit c w' files accessToken siteUrl cachePath urlList
            (resolveQuota args env options))"

section \<open>The pipeline, second variant\<close>

text \<open>
  The batch worker of the second variant, in the same two phases. Its cache entries
  hold the raw status and the time of the check.
\<close>

primrec worker2_dispatch ::
  "'w collaborators \<Rightarrow> string list \<Rightarrow> ('w, StatusEntry) check_state
     \<Rightarrow> string list \<times> ('w, StatusEntry) check_state" where
  "worker2_dispatch c [] st = ([], st)"
| "worker2_dispatch c (url # rest) st =
     (case map_of (pages st) url of
        None \<Rightarrow>
          (let (inflight, st') = worker2_dispatch c rest st in (url # inflight, st'))
      | Some result \<Rightarrow>
          (let (now, w') = dateNow c (cworld st) in
           if shouldRecheck2 now (status2 result) (lastCheckedAt2 result) then
             (let (inflight, st') = worker2_dispatch c rest (st\<lparr>cworld := w'\<rparr>)
              in (url # inflight, st'))
           else
             worker2_dispatch c rest
               (st\<lparr>cworld := w',
                   pagesPerIndexingStatus :=
                     (pagesPerIndexingStatus st)
                       (status2 result :=
                          pagesPerIndexingStatus st (status2 result) @ [url])\<rparr>)))"

definition worker2_resume ::
  "'w collaborators \<Rightarrow> string \<Rightarrow> string \<Rightarrow> string \<Rightarrow> ('w, StatusEntry) check_state
     \<Rightarrow> ('w, StatusEntry) check_state" where
  "worker2_resume c accessToken siteUrl url st =
     (let (s, w1) = getPageIndexingStatus c (cworld st) accessToken siteUrl url;
          (now, w2) = dateNow c w1;
          result = \<lparr>status2 = s, lastCheckedAt2 = now\<rparr>
      in st\<lparr>pages := AList.update url result (pages st),
            pagesPerIndexingStatus :=
              (pagesPerIndexingStatus st) (s := pagesPerIndexingStatus st s @ [url]),
            cworld := w2,
            ctrace := ctrace st @ [GetPageIndexingStatus url s]\<rparr>)"

definition worker2_settle ::
  "'w collaborators \<Rightarrow> string \<Rightarrow> string \<Rightarrow> string list \<Rightarrow> ('w, StatusEntry) check_state
     \<Rightarrow> ('w, StatusEntry) check_state" where
  "worker2_settle c accessToken siteUrl inflight st =
     settleAll (nextToReturn c) (worker2_resume c accessToken siteUrl) inflight st"

definition batch2_chunk ::
  "'w collaborators \<Rightarrow> string \<Rightarrow> string \<Rightarrow> string list \<Rightarrow> ('w, StatusEntry) check_state
     \<Rightarrow> ('w, StatusEntry) check_state" where
  "batch2_chunk c accessToken siteUrl chunk st =
     (let (inflight, st') = worker2_dispatch c chunk st
      in worker2_settle c accessToken siteUrl inflight st')"

primrec batch2_chunks ::
  "'w collaborators \<Rightarrow> string \<Rightarrow> string \<Rightarrow> string list list \<Rightarrow> ('w, StatusEntry) check_state
     \<Rightarrow> ('w, StatusEntry) check_state" where
  "batch2_chunks c accessToken siteUrl [] st = st"
| "batch2_chunks c accessToken siteUrl (chunk # rest) st =
     batch2_chunks c accessToken siteUrl rest (batch2_chunk c accessToken siteUrl chunk st)"

definition batch2 ::
  "'w collaborators \<Rightarrow> string \<Rightarrow> string \<Rightarrow> string list \<Rightarrow> ('w, StatusEntry) check_state
     \<Rightarrow> ('w, StatusEntry) check_state" where
  "batch2 c accessToken siteUrl urlList st =
     batch2_chunks c accessToken siteUrl (createChunks 50 urlList) st"

text \<open>
  The keys of \<open>pagesPerStatus\<close> in the order of the object literal, and
  \<^verbatim>\<open>Object.entries(pagesPerStatus).flatMap(...)\<close> over them.
\<close>

definition statusKeys :: "IndexingStatus list" where
  "statusKeys =
     [SubmittedAndIndexed, DuplicateWithoutUserSelectedCanonical, CrawledCurrentlyNotIndexed,
      DiscoveredCurrentlyNotIndexed, PageWithRedirect, URLIsUnknownToGoogle, RateLimited,
      Forbidden, Error]"

definition indexablePages :: "(IndexingStatus \<Rightarrow> string list) \<Rightarrow> string list" where
  "indexablePages perStatus =
     concat (map (\<lambda>s. if s \<in> set indexableStatuses2 then perStatus s else []) statusKeys)"

definition checkAndSubmit2 ::
  "'w collaborators \<Rightarrow> 'w \<Rightarrow> (string \<Rightarrow> StatusEntry cache_file option) \<Rightarrow> string \<Rightarrow> string
     \<Rightarrow> string \<Rightarrow> string list \<Rightarrow> quota_options \<Rightarrow> ('w, StatusEntry) run" where
  "checkAndSubmit2 c w files accessToken siteUrl cachePath urlList q =
     (case loadCache files cachePath of
        Inl _ \<Rightarrow>
          \<lparr>outcome = Thrown, trace = readEvents files cachePath, world = w, disk = files\<rparr>
      | Inr cached \<Rightarrow>
          (let st = batch2 c accessToken siteUrl urlList
                      \<lparr>pages = cached, pagesPerIndexingStatus = (\<lambda>_. []), cworld = w,
                       ctrace = readEvents files cachePath\<rparr>;
               queue = indexablePages (pagesPerIndexingStatus st);
               (evs, w') = submitQueue c accessToken q queue (cworld st)
           in \<lparr>outcome = Finished,
               trace = ctrace st @ [WriteFileSync cachePath (pages st)] @ evs,
               world = w',
               disk = files(cachePath \<mapsto> Parsed (pages st))\<rparr>))"

text \<open>
  \<open>index\<close> of the second variant. Its \<^verbatim>\<open>isCancel(s)\<close> test of a freshly made spinner is
  never true.
\<close>

definition index2 ::
  "'w collaborators \<Rightarrow> 'w \<Rightarrow> (string \<Rightarrow> StatusEntry cache_file option)
     \<Rightarrow> (string \<Rightarrow> string option) \<Rightarrow> (string \<Rightarrow> string option) \<Rightarrow> string option
     \<Rightarrow> IndexOptions \<Rightarrow> ('w, StatusEntry) run" where
  "index2 c w files args env input options =
     (case prepare c w args env input options of
        Inl (code, w') \<Rightarrow> \<lparr>outcome = Exited code, trace = [], world = w', disk = files\<rparr>
      | Inr (accessToken, siteUrl, cachePath, urlList, w') \<Rightarrow>
          checkAndSubmit2 c w' files accessToken siteUrl cachePath urlList
            (resolveQuota args env options))"

section \<open>Reading a trace\<close>

fun isCheck :: "'e event \<Rightarrow> bool" where
  "isCheck (GetPageIndexingStatus url s) = True"
| "isCheck _ = False"

fun isWrite :: "'e event \<Rightarrow> bool" where
  "isWrite (WriteFileSync p kvs) = True"
| "isWrite _ = False"

fun isSubmission :: "'e event \<Rightarrow> bool" where
  "isSubmission (GetPublishMetadata url k st) = True"
| "isSubmission (RequestIndexing url) = True"
| "isSubmission _ = False"

text \<open>The URLs whose status was checked, in order.\<close>

fun checkedUrls :: "'e event list \<Rightarrow> string list" where
  "checkedUrls [] = []"
| "checkedUrls (GetPageIndexingStatus url s # evs) = url # checkedUrls evs"
| "checkedUrls (_ # evs) = checkedUrls evs"

text \<open>The publish-metadata queries made, in order: the URL and the retry budget.\<close>

fun metadataQueries :: "'e event list \<Rightarrow> (string \<times> nat) list" where
  "metadataQueries [] = []"
| "metadataQueries (GetPublishMetadata url k st # evs) = (url, k) # metadataQueries evs"
| "metadataQueries (_ # evs) = metadataQueries evs"

section \<open>Predicates used in the statements\<close>

text \<open>
  \<open>rebuilt cached checks ps\<close>: the mapping \<open>ps\<close> is the loaded cache \<open>cached\<close> overlaid
  with the status checks \<open>checks\<close>. A URL that was not checked keeps the entry it had
  (or has none, as before); a URL that was checked has an entry whose raw status was
  returned by one of the checks of that URL and whose page status is the
  classification of that raw status.
\<close>

definition rebuilt :: "(string \<times> Page) list \<Rightarrow> Page event list \<Rightarrow> (string \<times> Page) list \<Rightarrow> bool" where
  "rebuilt cached checks ps \<longleftrightarrow>
     list_all isCheck checks
     \<and> (\<forall>url. url \<notin> set (checkedUrls checks) \<longrightarrow> map_of ps url = map_of cached url)
     \<and> (\<forall>url. url \<in> set (checkedUrls checks) \<longrightarrow>
          (\<exists>page. map_of ps url = Some page
             \<and> status page = classify (indexingStatus page)
             \<and> GetPageIndexingStatus url (indexingStatus page) \<in> set checks))"

text \<open>
  Modelled from the spec: the contract of the publish-metadata and indexing-request
  APIs (\<^verbatim>\<open>./shared/gsc\<close>, not among the sources), as far as idempotence needs it. By
  section 6 of the specification the publish-metadata query answers a code below 400
  for a URL that has a submission, and by section 4.5 an indexing request creates one.
  \<open>hasSubmission w url\<close> says that in the world \<open>w\<close> the URL has a submission. The
  external state is unchanged when no call of a collaborator removes a submission.
\<close>

definition submissionsPersist :: "'w collaborators \<Rightarrow> ('w \<Rightarrow> string \<Rightarrow> bool) \<Rightarrow> bool" where
  "submissionsPersist c hasSubmission \<longleftrightarrow>
     (\<forall>w tok u k. hasSubmission w u \<longrightarrow> fst (getPublishMetadata c w tok u k) < 400)
     \<and> (\<forall>w tok u. hasSubmission (requestIndexing c w tok u) u)
     \<and> (\<forall>w tok u v. hasSubmission w v \<longrightarrow> hasSubmission (requestIndexing c w tok u) v)
     \<and> (\<forall>w tok u k v. hasSubmission w v \<longrightarrow>
           hasSubmission (snd (getPublishMetadata c w tok u k)) v)
     \<and> (\<forall>w v. hasSubmission w v \<longrightarrow> hasSubmission (snd (dateNow c w)) v)
     \<and> (\<forall>w e k p v. hasSubmission w v \<longrightarrow> hasSubmission (snd (getAccessToken c w e k p)) v)
     \<and> (\<forall>w tok s v. hasSubmission w v \<longrightarrow> hasSubmission (snd (checkSiteUrl c w tok s)) v)
     \<and> (\<forall>w tok s v. hasSubmission w v \<longrightarrow> hasSubmission (snd (getSitemapUrls c w tok s)) v)
     \<and> (\<forall>w tok s u v. hasSubmission w v \<longrightarrow>
           hasSubmission (snd (getPageIndexingStatus c w tok s u)) v)"

section \<open>A simulated environment\<close>

text \<open>
  An environment to run the model on concrete inputs. Its clock advances by one
  millisecond at each reading and by ten during a status check, and the checks in
  flight return in the order of their dispatch. Modelled from the spec: the publish-metadata API
  answers 404 for a URL with no existing submission and a code below 400 (here 200)
  for a URL that has one, and an indexing request creates the submission (section 6
  and section 4.5 of the specification; the code of \<^verbatim>\<open>./shared/gsc\<close> is not among the
  sources).
\<close>

record sim_world =
  clock :: int
  submitted :: "string list"

definition sim ::
  "string list \<Rightarrow> string list \<Rightarrow> (string \<Rightarrow> IndexingStatus) \<Rightarrow> sim_world collaborators" where
  "sim sitemaps sitemapUrls statusOf =
     \<lparr>dateNow = (\<lambda>w. (clock w, w\<lparr>clock := clock w + 1\<rparr>)),
      getAccessToken = (\<lambda>w e k p. (Some ''token'', w)),
      convertToSiteUrl = (\<lambda>input. input),
      convertToFilePath = (\<lambda>siteUrl. siteUrl),
      checkSiteUrl = (\<lambda>w accessToken siteUrl. (Some siteUrl, w)),
      getSitemapUrls = (\<lambda>w accessToken siteUrl. ((sitemaps, sitemapUrls), w)),
      checkCustomUrls = (\<lambda>siteUrl us. us),
      getPageIndexingStatus =
        (\<lambda>w accessToken siteUrl url. (statusOf url, w\<lparr>clock := clock w + 10\<rparr>)),
      getPublishMetadata =
        (\<lambda>w accessToken url k. (if url \<in> set (submitted w) then 200 else 404, w)),
      requestIndexing = (\<lambda>w accessToken url. w\<lparr>submitted := url # submitted w\<rparr>),
      nextToReturn = (\<lambda>w inflight. 0)\<rparr>"

definition noOptions :: IndexOptions where
  "noOptions =
     \<lparr>client_email = None, private_key = None, path = None, urls = None, quota = None\<rparr>"

definition noArgs :: "string \<Rightarrow> string option" where
  "noArgs = (\<lambda>_. None)"

definition emptyDisk :: "string \<Rightarrow> 'e cache_file option" where
  "emptyDisk = (\<lambda>_. None)"

definition world0 :: sim_world where
  "world0 = \<lparr>clock = 1000, submitted = []\<rparr>"

definition exampleStatus :: "string \<Rightarrow> IndexingStatus" where
  "exampleStatus url =
     (if url = ''/a'' then DiscoveredCurrentlyNotIndexed
      else if url = ''/b'' then SubmittedAndIndexed
      else RateLimited)"

text \<open>A cache with one fresh Pending entry, for a URL that no sitemap lists.\<close>

definition exampleCache :: "(string \<times> Page) list" where
  "exampleCache =
     [(''/old'',
       \<lparr>status = Pending, indexingStatus = CrawledCurrentlyNotIndexed, lastCheckedAt = 900\<rparr>)]"

definition exampleDisk :: "string \<Rightarrow> Page cache_file option" where
  "exampleDisk = (\<lambda>_. None)(''.cache/site.json'' \<mapsto> Parsed exampleCache)"

section \<open>Properties of the pure part\<close>

lemma IndexingStatus_nine:
  "(UNIV :: IndexingStatus set) =
     {SubmittedAndIndexed, DuplicateWithoutUserSelectedCanonical, CrawledCurrentlyNotIndexed,
      DiscoveredCurrentlyNotIndexed, PageWithRedirect, URLIsUnknownToGoogle, RateLimited,
      Forbidden, Error}"
proof -
  have "s \<in> {SubmittedAndIndexed, DuplicateWithoutUserSelectedCanonical,
      CrawledCurrentlyNotIndexed, DiscoveredCurrentlyNotIndexed, PageWithRedirect,
      URLIsUnknownToGoogle, RateLimited, Forbidden, Error}" for s
    by (cases s) simp_all
  then show ?thesis by blast
qed

text \<open>
  C1. The classifier is defined on each of the nine raw statuses, which are all the
  raw statuses there are, and its value is given by the table: the five statuses
  Discovered/Crawled/Unknown/Forbidden/Error map to Pending, RateLimited maps to
  Failed, and SubmittedAndIndexed, DuplicateWithoutUserSelectedCanonical and
  PageWithRedirect map to Completed.
\<close>

theorem classify_table:
  "classify DiscoveredCurrentlyNotIndexed = Pending
   \<and> classify CrawledCurrentlyNotIndexed = Pending
   \<and> classify URLIsUnknownToGoogle = Pending
   \<and> classify Forbidden = Pending
   \<and> classify Error = Pending
   \<and> classify RateLimited = Failed
   \<and> classify SubmittedAndIndexed = Completed
   \<and> classify DuplicateWithoutUserSelectedCanonical = Completed
   \<and> classify PageWithRedirect = Completed
   \<and> (UNIV :: IndexingStatus set) =
       {DiscoveredCurrentlyNotIndexed, CrawledCurrentlyNotIndexed, URLIsUnknownToGoogle,
        Forbidden, Error, RateLimited, SubmittedAndIndexed,
        DuplicateWithoutUserSelectedCanonical, PageWithRedirect}"
proof -
  have table: "classify DiscoveredCurrentlyNotIndexed = Pending"
    "classify CrawledCurrentlyNotIndexed = Pending"
    "classify URLIsUnknownToGoogle = Pending"
    "classify Forbidden = Pending"
    "classify Error = Pending"
    "classify RateLimited = Failed"
    "classify SubmittedAndIndexed = Completed"
    "classify DuplicateWithoutUserSelectedCanonical = Completed"
    "classify PageWithRedirect = Completed"
    by (simp_all add: classify_def indexableStatuses_def)
  have "(UNIV :: IndexingStatus set) =
       {DiscoveredCurrentlyNotIndexed, CrawledCurrentlyNotIndexed, URLIsUnknownToGoogle,
        Forbidden, Error, RateLimited, SubmittedAndIndexed,
        DuplicateWithoutUserSelectedCanonical, PageWithRedirect}"
    unfolding IndexingStatus_nine by blast
  with table show ?thesis by simp
qed

text \<open>
  C2. Failure-or-age policy of the main variant: for every cache entry and every
  clock reading, \<open>shouldRecheck\<close> holds exactly when the entry's status is Failed or
  its \<open>lastCheckedAt\<close> lies more than 14 days (1209600000 ms) before now.
\<close>

theorem shouldRecheck_failure_or_age:
  "shouldRecheck now page =
     (status page = Failed \<or> lastCheckedAt page < now - 14 * 24 * 60 * 60 * 1000)"
  by (auto simp add: shouldRecheck_def Let_def CACHE_TIMEOUT_def)

text \<open>
  C3. Indexable-and-age policy of the second variant: \<open>shouldRecheck\<close> holds exactly
  when the cached status is one of the six statuses of that variant's indexable set
  (which contains RateLimited) and the entry is more than 14 days old; so an entry
  whose status is SubmittedAndIndexed is not rechecked at any age.
\<close>

theorem shouldRecheck2_indexable_and_age:
  "shouldRecheck2 now s checkedAt =
     (s \<in> {DiscoveredCurrentlyNotIndexed, CrawledCurrentlyNotIndexed, URLIsUnknownToGoogle,
            Forbidden, Error, RateLimited}
      \<and> checkedAt < now - 14 * 24 * 60 * 60 * 1000)
   \<and> shouldRecheck2 now SubmittedAndIndexed checkedAt = False"
  by (auto simp add: shouldRecheck2_def Let_def CACHE_TIMEOUT_def indexableStatuses2_def)

text \<open>
  C8. Staleness boundary: an entry checked exactly 14 days before now is fresh in
  both variants (in the main variant it is rechecked only when Failed, in the second
  variant never), and an entry checked one millisecond earlier is old in both (the
  main variant rechecks it, the second variant rechecks it when its status is
  indexable). The window is closed on the fresh side only, the same in both.
\<close>

theorem staleness_boundary:
  "shouldRecheck now (page\<lparr>lastCheckedAt := now - 14 * 24 * 60 * 60 * 1000\<rparr>)
     = (status page = Failed)
   \<and> shouldRecheck2 now s (now - 14 * 24 * 60 * 60 * 1000) = False
   \<and> shouldRecheck now (page\<lparr>lastCheckedAt := now - 14 * 24 * 60 * 60 * 1000 - 1\<rparr>) = True
   \<and> shouldRecheck2 now s (now - 14 * 24 * 60 * 60 * 1000 - 1)
     = (s \<in> set indexableStatuses2)"
  by (simp add: shouldRecheck_def shouldRecheck2_def Let_def CACHE_TIMEOUT_def)

section \<open>Chunks\<close>

lemma createChunks_Nil [simp]: "createChunks n [] = []"
  by (simp add: createChunks.simps)

lemma createChunks_small:
  "xs \<noteq> [] \<Longrightarrow> 0 < n \<Longrightarrow> length xs \<le> n \<Longrightarrow> createChunks n xs = [xs]"
  by (subst createChunks.simps) simp

lemma concat_createChunks: "0 < n \<Longrightarrow> concat (createChunks n xs) = xs"
proof (induction n xs rule: createChunks.induct)
  case (1 n xs)
  show ?case
  proof (cases "xs = []")
    case True
    then show ?thesis by simp
  next
    case False
    with 1 have "concat (createChunks n (drop n xs)) = drop n xs" by simp
    with False 1(2) show ?thesis
      by (subst createChunks.simps) simp
  qed
qed

section \<open>The submission loop\<close>

lemma submitQueue_isSubmission: "list_all isSubmission (fst (submitQueue c tok q queue w))"
  by (induction queue arbitrary: w) (auto simp: Let_def case_prod_beta)

lemma submitQueue_metadataQueries:
  "metadataQueries (fst (submitQueue c tok q queue w)) = map (\<lambda>url. (url, retriesOnRateLimit q)) queue"
  by (induction queue arbitrary: w) (auto simp: Let_def case_prod_beta)

lemma submitQueue_request_iff:
  "RequestIndexing u \<in> set (fst (submitQueue c tok q queue w))
     \<longleftrightarrow> GetPublishMetadata u (retriesOnRateLimit q) 404 \<in> set (fst (submitQueue c tok q queue w))"
  by (induction queue arbitrary: w) (auto simp: Let_def case_prod_beta)

section \<open>Traces\<close>

lemma checkedUrls_append: "checkedUrls (xs @ ys) = checkedUrls xs @ checkedUrls ys"
  by (induction xs rule: checkedUrls.induct) simp_all

lemma metadataQueries_append: "metadataQueries (xs @ ys) = metadataQueries xs @ metadataQueries ys"
  by (induction xs rule: metadataQueries.induct) simp_all

lemma metadataQueries_checks: "list_all isCheck evs \<Longrightarrow> metadataQueries evs = []"
  by (induction evs rule: metadataQueries.induct) simp_all

lemma checkedUrls_submission: "list_all isSubmission evs \<Longrightarrow> checkedUrls evs = []"
  by (induction evs rule: checkedUrls.induct) simp_all

lemma isCheck_not_request: "list_all isCheck evs \<Longrightarrow> RequestIndexing u \<notin> set evs"
  by (induction evs) auto

lemma isCheck_not_write: "list_all isCheck evs \<Longrightarrow> filter isWrite evs = []"
  by (induction evs rule: checkedUrls.induct) simp_all

lemma isSubmission_not_write: "list_all isSubmission evs \<Longrightarrow> filter isWrite evs = []"
  by (induction evs rule: checkedUrls.induct) simp_all

section \<open>The batch worker: dispatch\<close>

lemma worker_dispatch_pages: "pages (snd (worker_dispatch c chunk st)) = pages st"
  by (induction chunk arbitrary: st) (auto simp: Let_def case_prod_beta split: option.splits)

lemma worker_dispatch_ctrace: "ctrace (snd (worker_dispatch c chunk st)) = ctrace st"
  by (induction chunk arbitrary: st) (auto simp: Let_def case_prod_beta split: option.splits)

lemma worker_dispatch_subset: "set (fst (worker_dispatch c chunk st)) \<subseteq> set chunk"
  by (induction chunk arbitrary: st) (auto simp: Let_def case_prod_beta split: option.splits)

lemma worker_dispatch_fresh:
  assumes "map_of (pages st) url = Some page"
    and "\<And>w. \<not> shouldRecheck (fst (dateNow c w)) page"
  shows "url \<notin> set (fst (worker_dispatch c chunk st))"
  using assms(1)
proof (induction chunk arbitrary: st)
  case Nil
  then show ?case by simp
next
  case (Cons u rest)
  show ?case
  proof (cases "map_of (pages st) u")
    case None
    with Cons.prems have "u \<noteq> url" by auto
    with None Cons show ?thesis by (simp add: case_prod_beta)
  next
    case (Some pg)
    show ?thesis
    proof (cases "u = url")
      case True
      with Some Cons.prems have "pg = page" by simp
      with Some True assms(2) Cons show ?thesis by (simp add: case_prod_beta)
    next
      case False
      with Some Cons show ?thesis by (simp add: case_prod_beta)
    qed
  qed
qed

section \<open>The batch worker: settling, and the rebuilt mapping\<close>

lemma settleAll_Nil [simp]: "settleAll pick resume [] st = st"
  by (simp add: settleAll.simps)

lemma settleAll_step:
  "inflight \<noteq> [] \<Longrightarrow>
   settleAll pick resume inflight st =
     settleAll pick resume (removeAt (pick (cworld st) inflight mod length inflight) inflight)
       (resume (inflight ! (pick (cworld st) inflight mod length inflight)) st)"
  by (subst settleAll.simps) (simp add: Let_def)

lemma set_removeAt: "i < length xs \<Longrightarrow> insert (xs ! i) (set (removeAt i xs)) = set xs"
proof -
  assume "i < length xs"
  then have "xs = take i xs @ xs ! i # drop (Suc i) xs"
    by (rule id_take_nth_drop)
  then have "set xs = set (take i xs @ xs ! i # drop (Suc i) xs)"
    by simp
  then show ?thesis
    by (simp add: removeAt_def)
qed


text \<open>
  A property that every worker keeps when its check returns holds after all checks of
  the chunk have returned, in whatever order they do.
\<close>

lemma settleAll_invariant:
  assumes "P st" and "\<And>url s. url \<in> set inflight \<Longrightarrow> P s \<Longrightarrow> P (resume url s)"
  shows "P (settleAll pick resume inflight st)"
  using assms
proof (induction pick resume inflight st rule: settleAll.induct)
  case (1 pick resume inflight st)
  show ?case
  proof (cases "inflight = []")
    case True
    with 1(2) show ?thesis by simp
  next
    case False
    let ?i = "pick (cworld st) inflight mod length inflight"
    have i: "?i < length inflight" using False by simp
    have rest: "set (removeAt ?i inflight) \<subseteq> set inflight"
      using set_removeAt[OF i] by blast
    have now: "P (resume (inflight ! ?i) st)"
      using 1(2,3) i by simp
    have "P (settleAll pick resume (removeAt ?i inflight) (resume (inflight ! ?i) st))"
      using 1(1)[OF False refl now] 1(3) rest by blast
    then show ?thesis
      by (simp add: settleAll_step[OF False])
  qed
qed



lemma worker_resume_simps:
  "pages (worker_resume c tok site url st) =
     AList.update url
       \<lparr>status = classify (fst (getPageIndexingStatus c (cworld st) tok site url)),
        indexingStatus = fst (getPageIndexingStatus c (cworld st) tok site url),
        lastCheckedAt =
          fst (dateNow c (snd (getPageIndexingStatus c (cworld st) tok site url)))\<rparr>
       (pages st)"
  "ctrace (worker_resume c tok site url st) =
     ctrace st @ [GetPageIndexingStatus url (fst (getPageIndexingStatus c (cworld st) tok site url))]"
  "cworld (worker_resume c tok site url st) =
     snd (dateNow c (snd (getPageIndexingStatus c (cworld st) tok site url)))"
  by (simp_all add: worker_resume_def Let_def case_prod_beta)

lemma worker2_resume_simps:
  "ctrace (worker2_resume c tok site url st) =
     ctrace st @ [GetPageIndexingStatus url (fst (getPageIndexingStatus c (cworld st) tok site url))]"
  "cworld (worker2_resume c tok site url st) =
     snd (dateNow c (snd (getPageIndexingStatus c (cworld st) tok site url)))"
  by (simp_all add: worker2_resume_def Let_def case_prod_beta)

lemma worker_settle_rebuilt:
  assumes "ctrace st = base @ evs" and "rebuilt cached evs (pages st)"
  shows "\<exists>evs'. ctrace (worker_settle c tok site us st) = base @ evs @ evs'
           \<and> rebuilt cached (evs @ evs') (pages (worker_settle c tok site us st))
           \<and> set (checkedUrls evs') \<subseteq> set us"
  unfolding worker_settle_def
proof (rule settleAll_invariant)
  show "\<exists>evs'. ctrace st = base @ evs @ evs' \<and> rebuilt cached (evs @ evs') (pages st)
          \<and> set (checkedUrls evs') \<subseteq> set us"
    using assms by (intro exI[of _ "[]"]) simp
next
  fix url and s :: "('a, Page) check_state"
  assume url: "url \<in> set us"
    and "\<exists>evs'. ctrace s = base @ evs @ evs' \<and> rebuilt cached (evs @ evs') (pages s)
          \<and> set (checkedUrls evs') \<subseteq> set us"
  then obtain evs' where
    s: "ctrace s = base @ evs @ evs'" "rebuilt cached (evs @ evs') (pages s)"
      "set (checkedUrls evs') \<subseteq> set us"
    by blast
  let ?ev = "GetPageIndexingStatus url (fst (getPageIndexingStatus c (cworld s) tok site url))"
  have "rebuilt cached (evs @ evs' @ [?ev]) (pages (worker_resume c tok site url s))"
    using s(2)
    unfolding rebuilt_def
    by (auto simp: worker_resume_simps checkedUrls_append AList.update_conv')
  with s(1,3) url
  show "\<exists>evs'. ctrace (worker_resume c tok site url s) = base @ evs @ evs'
          \<and> rebuilt cached (evs @ evs') (pages (worker_resume c tok site url s))
          \<and> set (checkedUrls evs') \<subseteq> set us"
    by (intro exI[of _ "evs' @ [?ev]"]) (simp add: worker_resume_simps checkedUrls_append)
qed

lemma batch_chunk_rebuilt:
  assumes "ctrace st = base @ evs" and "rebuilt cached evs (pages st)"
  shows "\<exists>evs'. ctrace (batch_chunk c tok site chunk st) = base @ evs @ evs'
           \<and> rebuilt cached (evs @ evs') (pages (batch_chunk c tok site chunk st))
           \<and> set (checkedUrls evs') \<subseteq> set chunk"
proof -
  let ?d = "worker_dispatch c chunk st"
  have "ctrace (snd ?d) = base @ evs" "rebuilt cached evs (pages (snd ?d))"
    using assms by (simp_all add: worker_dispatch_ctrace worker_dispatch_pages)
  from worker_settle_rebuilt[OF this, of c tok site "fst ?d"]
  show ?thesis
    using worker_dispatch_subset[of c chunk st]
    by (auto simp: batch_chunk_def case_prod_beta)
qed

lemma batch_chunks_rebuilt:
  assumes "ctrace st = base @ evs" and "rebuilt cached evs (pages st)"
  shows "\<exists>evs'. ctrace (batch_chunks c tok site chunks st) = base @ evs @ evs'
           \<and> rebuilt cached (evs @ evs') (pages (batch_chunks c tok site chunks st))
           \<and> set (checkedUrls evs') \<subseteq> set (concat chunks)"
  using assms
proof (induction chunks arbitrary: st evs)
  case Nil
  then show ?case by simp
next
  case (Cons chunk rest)
  from batch_chunk_rebuilt[OF Cons.prems, of c tok site chunk] obtain e1 where
    e1: "ctrace (batch_chunk c tok site chunk st) = base @ (evs @ e1)"
        "rebuilt cached (evs @ e1) (pages (batch_chunk c tok site chunk st))"
        "set (checkedUrls e1) \<subseteq> set chunk"
    by auto
  from Cons.IH[OF e1(1) e1(2)] obtain e2 where
    e2: "ctrace (batch_chunks c tok site rest (batch_chunk c tok site chunk st)) = base @ (evs @ e1) @ e2"
        "rebuilt cached ((evs @ e1) @ e2) (pages (batch_chunks c tok site rest (batch_chunk c tok site chunk st)))"
        "set (checkedUrls e2) \<subseteq> set (concat rest)"
    by auto
  show ?case
    using e1(3) e2
    by (intro exI[of _ "e1 @ e2"]) (auto simp: checkedUrls_append)
qed

lemma rebuilt_start: "rebuilt cached [] cached"
  by (simp add: rebuilt_def)

lemma batch_rebuilt:
  "\<exists>checks. ctrace (batch c tok site urlList \<lparr>pages = cached, pagesPerIndexingStatus = f, cworld = w, ctrace = base\<rparr>) = base @ checks
           \<and> rebuilt cached checks (pages (batch c tok site urlList \<lparr>pages = cached, pagesPerIndexingStatus = f, cworld = w, ctrace = base\<rparr>))
           \<and> set (checkedUrls checks) \<subseteq> set urlList"
proof -
  let ?st = "\<lparr>pages = cached, pagesPerIndexingStatus = f, cworld = w, ctrace = base\<rparr>"
  have "ctrace ?st = base @ []" "rebuilt cached [] (pages ?st)"
    by (simp_all add: rebuilt_start)
  from batch_chunks_rebuilt[OF this, of c tok site "createChunks 50 urlList"]
  show ?thesis
    by (simp add: batch_def concat_createChunks)
qed

section \<open>Fresh entries are not rechecked\<close>

lemma worker_settle_untouched:
  assumes "url \<notin> set us"
    and "map_of (pages st) url = e"
    and "url \<notin> set (checkedUrls (ctrace st))"
  shows "map_of (pages (worker_settle c tok site us st)) url = e
         \<and> url \<notin> set (checkedUrls (ctrace (worker_settle c tok site us st)))"
  unfolding worker_settle_def
proof (rule settleAll_invariant)
  show "map_of (pages st) url = e \<and> url \<notin> set (checkedUrls (ctrace st))"
    using assms(2,3) by simp
next
  fix u and s :: "('a, Page) check_state"
  assume "u \<in> set us" and "map_of (pages s) url = e \<and> url \<notin> set (checkedUrls (ctrace s))"
  with assms(1)
  show "map_of (pages (worker_resume c tok site u s)) url = e
         \<and> url \<notin> set (checkedUrls (ctrace (worker_resume c tok site u s)))"
    by (auto simp: worker_resume_simps checkedUrls_append AList.update_conv')
qed

lemma batch_chunk_fresh:
  assumes "map_of (pages st) url = Some page"
    and "\<And>w. \<not> shouldRecheck (fst (dateNow c w)) page"
    and "url \<notin> set (checkedUrls (ctrace st))"
  shows "map_of (pages (batch_chunk c tok site chunk st)) url = Some page
         \<and> url \<notin> set (checkedUrls (ctrace (batch_chunk c tok site chunk st)))"
proof -
  have "url \<notin> set (fst (worker_dispatch c chunk st))"
    using assms(1,2) by (rule worker_dispatch_fresh)
  then show ?thesis
    using assms(1,3)
      worker_settle_untouched[of url "fst (worker_dispatch c chunk st)"
        "snd (worker_dispatch c chunk st)" "Some page" c tok site]
    by (simp add: batch_chunk_def case_prod_beta worker_dispatch_pages worker_dispatch_ctrace)
qed

lemma batch_chunks_fresh:
  assumes "map_of (pages st) url = Some page"
    and "\<And>w. \<not> shouldRecheck (fst (dateNow c w)) page"
    and "url \<notin> set (checkedUrls (ctrace st))"
  shows "map_of (pages (batch_chunks c tok site chunks st)) url = Some page
         \<and> url \<notin> set (checkedUrls (ctrace (batch_chunks c tok site chunks st)))"
  using assms(1,3)
proof (induction chunks arbitrary: st)
  case Nil
  then show ?case by simp
next
  case (Cons chunk rest)
  from batch_chunk_fresh[OF Cons.prems(1) assms(2) Cons.prems(2), of tok site chunk]
  show ?case using Cons.IH by simp
qed

section \<open>Submissions persist through a run\<close>

lemma submitQueue_persist:
  assumes "submissionsPersist c has" and "has w v"
  shows "has (snd (submitQueue c tok q queue w)) v"
  using assms(2)
proof (induction queue arbitrary: w)
  case Nil
  then show ?case by simp
next
  case (Cons u rest)
  from assms(1) Cons.prems
  have a: "has (snd (getPublishMetadata c w tok u (retriesOnRateLimit q))) v"
    by (simp add: submissionsPersist_def)
  with assms(1)
  have b: "has (requestIndexing c (snd (getPublishMetadata c w tok u (retriesOnRateLimit q))) tok u) v"
    by (simp add: submissionsPersist_def)
  from a b Cons.IH show ?case
    by (simp add: Let_def case_prod_beta)
qed

lemma submitQueue_no_duplicate:
  assumes "submissionsPersist c has" and "has w v"
  shows "RequestIndexing v \<notin> set (fst (submitQueue c tok q queue w))"
  using assms(2)
proof (induction queue arbitrary: w)
  case Nil
  then show ?case by simp
next
  case (Cons u rest)
  from assms(1) Cons.prems
  have a: "has (snd (getPublishMetadata c w tok u (retriesOnRateLimit q))) v"
    by (simp add: submissionsPersist_def)
  with assms(1)
  have b: "has (requestIndexing c (snd (getPublishMetadata c w tok u (retriesOnRateLimit q))) tok u) v"
    by (simp add: submissionsPersist_def)
  have c: "u = v \<Longrightarrow> fst (getPublishMetadata c w tok u (retriesOnRateLimit q)) \<noteq> 404"
  proof -
    assume "u = v"
    with assms(1) Cons.prems
    have "fst (getPublishMetadata c w tok u (retriesOnRateLimit q)) < 400"
      by (simp add: submissionsPersist_def)
    then show ?thesis by simp
  qed
  from a b c Cons.IH show ?case
    by (auto simp: Let_def case_prod_beta)
qed

lemma submitQueue_requested:
  assumes "submissionsPersist c has"
    and "RequestIndexing v \<in> set (fst (submitQueue c tok q queue w :: 'e event list \<times> 'w))"
  shows "has (snd (submitQueue c tok q queue w :: 'e event list \<times> 'w)) v"
  using assms(2)
proof (induction queue arbitrary: w)
  case Nil
  then show ?case by simp
next
  case (Cons u rest)
  let ?st = "fst (getPublishMetadata c w tok u (retriesOnRateLimit q))"
  let ?w1 = "snd (getPublishMetadata c w tok u (retriesOnRateLimit q))"
  show ?case
  proof (cases "?st = 404")
    case True
    show ?thesis
    proof (cases "RequestIndexing v \<in> set (fst (submitQueue c tok q rest (requestIndexing c ?w1 tok u) :: 'e event list \<times> 'w))")
      case later: True
      from Cons.IH[OF later] \<open>?st = 404\<close> show ?thesis
        by (simp add: Let_def case_prod_beta)
    next
      case False
      with \<open>?st = 404\<close> Cons.prems have "u = v"
        by (auto simp: Let_def case_prod_beta)
      with assms(1) have "has (requestIndexing c ?w1 tok u) v"
        by (simp add: submissionsPersist_def)
      from submitQueue_persist[OF assms(1) this] \<open>?st = 404\<close> show ?thesis
        by (simp add: Let_def case_prod_beta)
    qed
  next
    case False
    with Cons.prems have "RequestIndexing v \<in> set (fst (submitQueue c tok q rest ?w1 :: 'e event list \<times> 'w))"
      by (auto simp: Let_def case_prod_beta)
    from Cons.IH[OF this] False show ?thesis
      by (simp add: Let_def case_prod_beta)
  qed
qed

lemma worker_dispatch_persist:
  assumes "submissionsPersist c has" and "has (cworld st) v"
  shows "has (cworld (snd (worker_dispatch c chunk st))) v"
  using assms(2)
proof (induction chunk arbitrary: st)
  case Nil
  then show ?case by simp
next
  case (Cons u rest)
  from assms(1) Cons.prems have "has (snd (dateNow c (cworld st))) v"
    by (simp add: submissionsPersist_def)
  with Cons show ?case
    by (simp add: Let_def case_prod_beta split: option.splits)
qed

lemma worker_settle_persist:
  assumes "submissionsPersist c has" and "has (cworld st) v"
  shows "has (cworld (worker_settle c tok site us st)) v"
  unfolding worker_settle_def
proof (rule settleAll_invariant)
  show "has (cworld st) v" by (rule assms(2))
next
  fix u and s :: "('a, Page) check_state"
  assume "has (cworld s) v"
  with assms(1)
  have "has (snd (getPageIndexingStatus c (cworld s) tok site u)) v"
    by (simp add: submissionsPersist_def)
  with assms(1)
  show "has (cworld (worker_resume c tok site u s)) v"
    by (simp add: submissionsPersist_def worker_resume_simps)
qed

lemma batch_persist:
  assumes "submissionsPersist c has" and "has (cworld st) v"
  shows "has (cworld (batch c tok site urlList st)) v"
proof -
  have chunk: "has (cworld (batch_chunk c tok site chunk s)) v" if "has (cworld s) v" for chunk s
    using that assms(1)
    by (simp add: batch_chunk_def case_prod_beta worker_settle_persist worker_dispatch_persist)
  have "has (cworld (batch_chunks c tok site chunks s)) v" if "has (cworld s) v" for chunks s
    using that by (induction chunks arbitrary: s) (simp_all add: chunk)
  with assms(2) show ?thesis by (simp add: batch_def)
qed

lemma worker2_dispatch_ctrace: "ctrace (snd (worker2_dispatch c chunk st)) = ctrace st"
  by (induction chunk arbitrary: st) (auto simp: Let_def case_prod_beta split: option.splits)

lemma worker2_settle_checks:
  "\<exists>evs. ctrace (worker2_settle c tok site us st) = ctrace st @ evs \<and> list_all isCheck evs
     \<and> set (checkedUrls evs) \<subseteq> set us"
  unfolding worker2_settle_def
proof (rule settleAll_invariant)
  show "\<exists>evs. ctrace st = ctrace st @ evs \<and> list_all isCheck evs
     \<and> set (checkedUrls evs) \<subseteq> set us"
    by (intro exI[of _ "[]"]) simp
next
  fix u and s :: "('a, StatusEntry) check_state"
  assume u: "u \<in> set us"
    and "\<exists>evs. ctrace s = ctrace st @ evs \<and> list_all isCheck evs
     \<and> set (checkedUrls evs) \<subseteq> set us"
  then obtain evs where
    s: "ctrace s = ctrace st @ evs" "list_all isCheck evs" "set (checkedUrls evs) \<subseteq> set us"
    by blast
  let ?ev = "GetPageIndexingStatus u (fst (getPageIndexingStatus c (cworld s) tok site u))"
  from s u
  show "\<exists>evs. ctrace (worker2_resume c tok site u s) = ctrace st @ evs \<and> list_all isCheck evs
     \<and> set (checkedUrls evs) \<subseteq> set us"
    by (intro exI[of _ "evs @ [?ev]"]) (simp add: worker2_resume_simps checkedUrls_append)
qed

lemma batch2_checks:
  "\<exists>evs. ctrace (batch2 c tok site urlList st) = ctrace st @ evs \<and> list_all isCheck evs"
proof -
  have chunk: "\<exists>evs. ctrace (batch2_chunk c tok site chunk s) = ctrace s @ evs \<and> list_all isCheck evs"
    for chunk s
    using worker2_settle_checks[of c tok site "fst (worker2_dispatch c chunk s)" "snd (worker2_dispatch c chunk s)"]
    by (auto simp: batch2_chunk_def case_prod_beta worker2_dispatch_ctrace)
  have "\<exists>evs. ctrace (batch2_chunks c tok site chunks s) = ctrace s @ evs \<and> list_all isCheck evs"
    for chunks s
  proof (induction chunks arbitrary: s)
    case Nil
    then show ?case by simp
  next
    case (Cons chunk rest)
    from chunk[of chunk s] obtain e1 where
      e1: "ctrace (batch2_chunk c tok site chunk s) = ctrace s @ e1" "list_all isCheck e1"
      by blast
    from Cons.IH[of "batch2_chunk c tok site chunk s"] obtain e2 where
      e2: "ctrace (batch2_chunks c tok site rest (batch2_chunk c tok site chunk s))
             = ctrace (batch2_chunk c tok site chunk s) @ e2" "list_all isCheck e2"
      by blast
    from e1 e2 show ?case
      by (intro exI[of _ "e1 @ e2"]) simp
  qed
  then show ?thesis by (simp add: batch2_def)
qed

lemma worker2_dispatch_persist:
  assumes "submissionsPersist c has" and "has (cworld st) v"
  shows "has (cworld (snd (worker2_dispatch c chunk st))) v"
  using assms(2)
proof (induction chunk arbitrary: st)
  case Nil
  then show ?case by simp
next
  case (Cons u rest)
  from assms(1) Cons.prems have "has (snd (dateNow c (cworld st))) v"
    by (simp add: submissionsPersist_def)
  with Cons show ?case
    by (simp add: Let_def case_prod_beta split: option.splits)
qed

lemma worker2_settle_persist:
  assumes "submissionsPersist c has" and "has (cworld st) v"
  shows "has (cworld (worker2_settle c tok site us st)) v"
  unfolding worker2_settle_def
proof (rule settleAll_invariant)
  show "has (cworld st) v" by (rule assms(2))
next
  fix u and s :: "('a, StatusEntry) check_state"
  assume "has (cworld s) v"
  with assms(1)
  have "has (snd (getPageIndexingStatus c (cworld s) tok site u)) v"
    by (simp add: submissionsPersist_def)
  with assms(1)
  show "has (cworld (worker2_resume c tok site u s)) v"
    by (simp add: submissionsPersist_def worker2_resume_simps)
qed

lemma batch2_persist:
  assumes "submissionsPersist c has" and "has (cworld st) v"
  shows "has (cworld (batch2 c tok site urlList st)) v"
proof -
  have chunk: "has (cworld (batch2_chunk c tok site chunk s)) v" if "has (cworld s) v" for chunk s
    using that assms(1)
    by (simp add: batch2_chunk_def case_prod_beta worker2_settle_persist worker2_dispatch_persist)
  have "has (cworld (batch2_chunks c tok site chunks s)) v" if "has (cworld s) v" for chunks s
    using that by (induction chunks arbitrary: s) (simp_all add: chunk)
  with assms(2) show ?thesis by (simp add: batch2_def)
qed

section \<open>The shape of a run\<close>

lemma checkAndSubmit_Thrown:
  "loadCache files p = Inl e \<Longrightarrow>
   checkAndSubmit c w files tok site p urlList q =
     \<lparr>outcome = Thrown, trace = readEvents files p, world = w, disk = files\<rparr>"
  by (simp add: checkAndSubmit_def)

lemma checkAndSubmit_Finished:
  assumes "loadCache files p = Inr cached"
    and "st = batch c tok site urlList
                   \<lparr>pages = cached, pagesPerIndexingStatus = (\<lambda>_. []), cworld = w,
                    ctrace = readEvents files p\<rparr>"
  shows "checkAndSubmit c w files tok site p urlList q =
     \<lparr>outcome = Finished,
      trace = ctrace st @ [WriteFileSync p (pages st)]
                @ fst (submitQueue c tok q (submissionQueue (pages st)) (cworld st)),
      world = snd (submitQueue c tok q (submissionQueue (pages st)) (cworld st) :: Page event list \<times> 'a),
      disk = files(p \<mapsto> Parsed (pages st))\<rparr>"
  using assms by (simp add: checkAndSubmit_def Let_def case_prod_beta)

lemma checkAndSubmit_shape:
  assumes "loadCache files p = Inr cached"
  shows "\<exists>checks written subs.
           outcome (checkAndSubmit c w files tok site p urlList q) = Finished
         \<and> trace (checkAndSubmit c w files tok site p urlList q)
             = readEvents files p @ checks @ [WriteFileSync p written] @ subs
         \<and> list_all isSubmission subs
         \<and> rebuilt cached checks written
         \<and> set (checkedUrls checks) \<subseteq> set urlList
         \<and> metadataQueries subs = map (\<lambda>url. (url, retriesOnRateLimit q)) (submissionQueue written)
         \<and> disk (checkAndSubmit c w files tok site p urlList q) = files(p \<mapsto> Parsed written)"
proof -
  let ?st = "batch c tok site urlList
                   \<lparr>pages = cached, pagesPerIndexingStatus = (\<lambda>_. []), cworld = w,
                    ctrace = readEvents files p\<rparr>"
  from batch_rebuilt[of c tok site urlList cached "\<lambda>_. []" w "readEvents files p"]
  obtain checks where ch: "ctrace ?st = readEvents files p @ checks"
    "rebuilt cached checks (pages ?st)" "set (checkedUrls checks) \<subseteq> set urlList"
    by blast
  show ?thesis
    unfolding checkAndSubmit_Finished[OF assms refl]
    using ch
    by (intro exI[of _ checks] exI[of _ "pages ?st"]
          exI[of _ "fst (submitQueue c tok q (submissionQueue (pages ?st)) (cworld ?st))"])
       (simp add: submitQueue_isSubmission submitQueue_metadataQueries)
qed

lemma loadCache_cases:
  "(\<exists>cached. loadCache files p = Inr cached) \<or> (loadCache files p = Inl () \<and> files p = Some Malformed)"
  by (auto simp: loadCache_def split: option.splits cache_file.splits)

lemma prepare_Inr:
  assumes "prepare c w args env input options = Inr (tok, site, p, urlList, w')"
  shows "\<exists>inp. input = Some inp \<and> inp \<noteq> [] \<and> p = cachePathOf c (convertToSiteUrl c inp)"
  using assms
  by (auto simp: prepare_def Let_def case_prod_beta
      split: option.splits if_splits prod.splits sum.splits)

lemma enumerateUrls_code:
  "fst (enumerateUrls c w tok site ou) = Inl code \<Longrightarrow> code = 1"
  by (auto simp: enumerateUrls_def Let_def case_prod_beta split: if_splits)

lemma prepare_Inl:
  assumes "prepare c w args env input options = Inl (code, w')"
  shows "code = 1"
  using assms
  by (auto simp: prepare_def Let_def case_prod_beta dest: enumerateUrls_code
      split: option.splits if_splits prod.splits sum.splits)

lemma index_Inl:
  "prepare c w args env input options = Inl (code, w') \<Longrightarrow>
   index c w files args env input options = \<lparr>outcome = Exited code, trace = [], world = w', disk = files\<rparr>"
  by (simp add: index_def)

lemma index_Inr:
  "prepare c w args env input options = Inr (tok, site, p, urlList, w') \<Longrightarrow>
   index c w files args env input options =
     checkAndSubmit c w' files tok site p urlList (resolveQuota args env options)"
  by (simp add: index_def)

lemma index2_Inl:
  "prepare c w args env input options = Inl (code, w') \<Longrightarrow>
   index2 c w files args env input options = \<lparr>outcome = Exited code, trace = [], world = w', disk = files\<rparr>"
  by (simp add: index2_def)

lemma index2_Inr:
  "prepare c w args env input options = Inr (tok, site, p, urlList, w') \<Longrightarrow>
   index2 c w files args env input options =
     checkAndSubmit2 c w' files tok site p urlList (resolveQuota args env options)"
  by (simp add: index2_def)

lemma prepare_cases:
  obtains (exit) code w' where "prepare c w args env input options = Inl (code, w')"
  | (go) tok site p urlList w' where "prepare c w args env input options = Inr (tok, site, p, urlList, w')"
  by (cases "prepare c w args env input options") auto

section \<open>Runs and submissions\<close>

lemma readEvents_no_request: "RequestIndexing v \<notin> set (readEvents files p)"
  by (simp add: readEvents_def split: option.splits)

lemma readEvents_metadataQueries: "metadataQueries (readEvents files p) = []"
  by (simp add: readEvents_def split: option.splits)

lemma readEvents_no_write: "filter isWrite (readEvents files p) = []"
  by (simp add: readEvents_def split: option.splits)

lemma readEvents_checkedUrls: "checkedUrls (readEvents files p) = []"
  by (simp add: readEvents_def split: option.splits)

lemma enumerateUrls_persist:
  assumes "submissionsPersist c has" and "has w v"
  shows "has (snd (enumerateUrls c w tok site ou)) v"
  using assms
  by (simp add: enumerateUrls_def Let_def case_prod_beta submissionsPersist_def)

lemma prepare_world:
  assumes "prepare c w args env input options = Inr (tok, site, p, urlList, w')"
  shows "\<exists>inp. w' = snd (enumerateUrls c
             (snd (checkSiteUrl c
                (snd (getAccessToken c w
                   (resolveCredential (client_email options) (args ''client-email'') (env ''GIS_CLIENT_EMAIL''))
                   (resolveCredential (private_key options) (args ''private-key'') (env ''GIS_PRIVATE_KEY''))
                   (resolveCredential (path options) (args ''path'') (env ''GIS_PATH''))))
                tok (convertToSiteUrl c inp)))
             tok site (resolveUrls args options))
           \<and> fst (enumerateUrls c
             (snd (checkSiteUrl c
                (snd (getAccessToken c w
                   (resolveCredential (client_email options) (args ''client-email'') (env ''GIS_CLIENT_EMAIL''))
                   (resolveCredential (private_key options) (args ''private-key'') (env ''GIS_PRIVATE_KEY''))
                   (resolveCredential (path options) (args ''path'') (env ''GIS_PATH''))))
                tok (convertToSiteUrl c inp)))
             tok site (resolveUrls args options)) = Inr urlList"
  using assms
  by (auto simp: prepare_def Let_def case_prod_beta
      split: option.splits if_splits prod.splits sum.splits)

lemma prepare_persist:
  assumes "prepare c w args env input options = Inr (tok, site, p, urlList, w')"
    and "submissionsPersist c has" and "has w v"
  shows "has w' v"
proof -
  let ?a = "getAccessToken c w
              (resolveCredential (client_email options) (args ''client-email'') (env ''GIS_CLIENT_EMAIL''))
              (resolveCredential (private_key options) (args ''private-key'') (env ''GIS_PRIVATE_KEY''))
              (resolveCredential (path options) (args ''path'') (env ''GIS_PATH''))"
  from prepare_world[OF assms(1)] obtain inp where
    w': "w' = snd (enumerateUrls c (snd (checkSiteUrl c (snd ?a) tok (convertToSiteUrl c inp)))
                 tok site (resolveUrls args options))"
    by blast
  have 1: "has (snd ?a) v"
    using assms(2,3) by (simp add: submissionsPersist_def)
  have 2: "has (snd (checkSiteUrl c (snd ?a) tok (convertToSiteUrl c inp))) v"
    using assms(2) 1 by (simp add: submissionsPersist_def)
  show ?thesis
    unfolding w' using assms(2) 2 by (rule enumerateUrls_persist)
qed

lemma checkAndSubmit_no_duplicate:
  assumes "submissionsPersist c has" and "has w v"
  shows "RequestIndexing v \<notin> set (trace (checkAndSubmit c w files tok site p urlList q))"
proof -
  consider (thrown) "loadCache files p = Inl ()" | (loaded) cached where "loadCache files p = Inr cached"
    using loadCache_cases[of files p] by blast
  then show ?thesis
  proof cases
    case thrown
    then show ?thesis by (simp add: checkAndSubmit_Thrown readEvents_no_request)
  next
    case loaded
    let ?st = "batch c tok site urlList
                   \<lparr>pages = cached, pagesPerIndexingStatus = (\<lambda>_. []), cworld = w,
                    ctrace = readEvents files p\<rparr>"
    from batch_rebuilt[of c tok site urlList cached "\<lambda>_. []" w "readEvents files p"]
    obtain checks where ch: "ctrace ?st = readEvents files p @ checks" "rebuilt cached checks (pages ?st)"
      by blast
    then have "list_all isCheck checks" by (simp add: rebuilt_def)
    then have a: "RequestIndexing v \<notin> set (ctrace ?st)"
      using ch(1) by (simp add: readEvents_no_request isCheck_not_request)
    have "has (cworld ?st) v"
      using assms by (simp add: batch_persist)
    from submitQueue_no_duplicate[OF assms(1) this]
    have b: "RequestIndexing v \<notin> set (fst (submitQueue c tok q (submissionQueue (pages ?st)) (cworld ?st) :: Page event list \<times> 'a))" .
    show ?thesis
      unfolding checkAndSubmit_Finished[OF loaded refl]
      using a b by simp
  qed
qed

lemma checkAndSubmit_requested:
  assumes "submissionsPersist c has"
    and "RequestIndexing v \<in> set (trace (checkAndSubmit c w files tok site p urlList q))"
  shows "has (world (checkAndSubmit c w files tok site p urlList q)) v"
proof -
  consider (thrown) "loadCache files p = Inl ()" | (loaded) cached where "loadCache files p = Inr cached"
    using loadCache_cases[of files p] by blast
  then show ?thesis
  proof cases
    case thrown
    with assms(2) show ?thesis by (simp add: checkAndSubmit_Thrown readEvents_no_request)
  next
    case loaded
    let ?st = "batch c tok site urlList
                   \<lparr>pages = cached, pagesPerIndexingStatus = (\<lambda>_. []), cworld = w,
                    ctrace = readEvents files p\<rparr>"
    from batch_rebuilt[of c tok site urlList cached "\<lambda>_. []" w "readEvents files p"]
    obtain checks where ch: "ctrace ?st = readEvents files p @ checks" "rebuilt cached checks (pages ?st)"
      by blast
    then have "list_all isCheck checks" by (simp add: rebuilt_def)
    then have a: "RequestIndexing v \<notin> set (ctrace ?st)"
      using ch(1) by (simp add: readEvents_no_request isCheck_not_request)
    from assms(2) a
    have "RequestIndexing v \<in> set (fst (submitQueue c tok q (submissionQueue (pages ?st)) (cworld ?st) :: Page event list \<times> 'a))"
      unfolding checkAndSubmit_Finished[OF loaded refl] by simp
    from submitQueue_requested[OF assms(1) this]
    show ?thesis
      unfolding checkAndSubmit_Finished[OF loaded refl] by simp
  qed
qed

lemma index_no_duplicate:
  assumes "submissionsPersist c has" and "has w v"
  shows "RequestIndexing v \<notin> set (trace (index c w files args env input options))"
proof (cases rule: prepare_cases[of c w args env input options])
  case (exit code w')
  then show ?thesis by (simp add: index_Inl)
next
  case (go tok site p urlList w')
  from prepare_persist[OF go assms] have "has w' v" .
  from checkAndSubmit_no_duplicate[OF assms(1) this] show ?thesis
    by (simp add: index_Inr[OF go])
qed

lemma index_requested:
  assumes "submissionsPersist c has"
    and "RequestIndexing v \<in> set (trace (index c w files args env input options))"
  shows "has (world (index c w files args env input options)) v"
proof (cases rule: prepare_cases[of c w args env input options])
  case (exit code w')
  with assms(2) show ?thesis by (simp add: index_Inl)
next
  case (go tok site p urlList w')
  from assms(2) checkAndSubmit_requested[OF assms(1)] show ?thesis
    by (simp add: index_Inr[OF go])
qed

section \<open>Runs and submissions, second variant\<close>

lemma checkAndSubmit2_Thrown:
  "loadCache files p = Inl e \<Longrightarrow>
   checkAndSubmit2 c w files tok site p urlList q =
     \<lparr>outcome = Thrown, trace = readEvents files p, world = w, disk = files\<rparr>"
  by (simp add: checkAndSubmit2_def)

lemma checkAndSubmit2_Finished:
  assumes "loadCache files p = Inr cached"
    and "st = batch2 c tok site urlList
                   \<lparr>pages = cached, pagesPerIndexingStatus = (\<lambda>_. []), cworld = w,
                    ctrace = readEvents files p\<rparr>"
  shows "checkAndSubmit2 c w files tok site p urlList q =
     \<lparr>outcome = Finished,
      trace = ctrace st @ [WriteFileSync p (pages st)]
                @ fst (submitQueue c tok q (indexablePages (pagesPerIndexingStatus st)) (cworld st)),
      world = snd (submitQueue c tok q (indexablePages (pagesPerIndexingStatus st)) (cworld st) :: StatusEntry event list \<times> 'a),
      disk = files(p \<mapsto> Parsed (pages st))\<rparr>"
  using assms by (simp add: checkAndSubmit2_def Let_def case_prod_beta)

lemma checkAndSubmit2_no_duplicate:
  assumes "submissionsPersist c has" and "has w v"
  shows "RequestIndexing v \<notin> set (trace (checkAndSubmit2 c w files tok site p urlList q))"
proof -
  consider (thrown) "loadCache files p = Inl ()" | (loaded) cached where "loadCache files p = Inr cached"
    using loadCache_cases[of files p] by blast
  then show ?thesis
  proof cases
    case thrown
    then show ?thesis by (simp add: checkAndSubmit2_Thrown readEvents_no_request)
  next
    case loaded
    let ?st = "batch2 c tok site urlList
                   \<lparr>pages = cached, pagesPerIndexingStatus = (\<lambda>_. []), cworld = w,
                    ctrace = readEvents files p\<rparr>"
    from batch2_checks[of c tok site urlList "\<lparr>pages = cached, pagesPerIndexingStatus = (\<lambda>_. []), cworld = w,
                    ctrace = readEvents files p\<rparr>"]
    obtain checks where ch: "ctrace ?st = readEvents files p @ checks" "list_all isCheck checks"
      by auto
    then have a: "RequestIndexing v \<notin> set (ctrace ?st)"
      by (simp add: readEvents_no_request isCheck_not_request)
    have "has (cworld ?st) v"
      using assms by (simp add: batch2_persist)
    from submitQueue_no_duplicate[OF assms(1) this]
    have b: "RequestIndexing v \<notin> set (fst (submitQueue c tok q (indexablePages (pagesPerIndexingStatus ?st)) (cworld ?st) :: StatusEntry event list \<times> 'a))" .
    show ?thesis
      unfolding checkAndSubmit2_Finished[OF loaded refl]
      using a b by simp
  qed
qed

lemma checkAndSubmit2_requested:
  assumes "submissionsPersist c has"
    and "RequestIndexing v \<in> set (trace (checkAndSubmit2 c w files tok site p urlList q))"
  shows "has (world (checkAndSubmit2 c w files tok site p urlList q)) v"
proof -
  consider (thrown) "loadCache files p = Inl ()" | (loaded) cached where "loadCache files p = Inr cached"
    using loadCache_cases[of files p] by blast
  then show ?thesis
  proof cases
    case thrown
    with assms(2) show ?thesis by (simp add: checkAndSubmit2_Thrown readEvents_no_request)
  next
    case loaded
    let ?st = "batch2 c tok site urlList
                   \<lparr>pages = cached, pagesPerIndexingStatus = (\<lambda>_. []), cworld = w,
                    ctrace = readEvents files p\<rparr>"
    from batch2_checks[of c tok site urlList "\<lparr>pages = cached, pagesPerIndexingStatus = (\<lambda>_. []), cworld = w,
                    ctrace = readEvents files p\<rparr>"]
    obtain checks where ch: "ctrace ?st = readEvents files p @ checks" "list_all isCheck checks"
      by auto
    then have a: "RequestIndexing v \<notin> set (ctrace ?st)"
      by (simp add: readEvents_no_request isCheck_not_request)
    from assms(2) a
    have "RequestIndexing v \<in> set (fst (submitQueue c tok q (indexablePages (pagesPerIndexingStatus ?st)) (cworld ?st) :: StatusEntry event list \<times> 'a))"
      unfolding checkAndSubmit2_Finished[OF loaded refl] by simp
    from submitQueue_requested[OF assms(1) this]
    show ?thesis
      unfolding checkAndSubmit2_Finished[OF loaded refl] by simp
  qed
qed

lemma index2_no_duplicate:
  assumes "submissionsPersist c has" and "has w v"
  shows "RequestIndexing v \<notin> set (trace (index2 c w files args env input options))"
proof (cases rule: prepare_cases[of c w args env input options])
  case (exit code w')
  then show ?thesis by (simp add: index2_Inl)
next
  case (go tok site p urlList w')
  from prepare_persist[OF go assms] have "has w' v" .
  from checkAndSubmit2_no_duplicate[OF assms(1) this] show ?thesis
    by (simp add: index2_Inr[OF go])
qed

lemma index2_requested:
  assumes "submissionsPersist c has"
    and "RequestIndexing v \<in> set (trace (index2 c w files args env input options))"
  shows "has (world (index2 c w files args env input options)) v"
proof (cases rule: prepare_cases[of c w args env input options])
  case (exit code w')
  with assms(2) show ?thesis by (simp add: index2_Inl)
next
  case (go tok site p urlList w')
  from assms(2) checkAndSubmit2_requested[OF assms(1)] show ?thesis
    by (simp add: index2_Inr[OF go])
qed

section \<open>Evaluating runs of the simulated environment\<close>

lemmas run_simps =
  index_def index2_def prepare_def sim_def world0_def emptyDisk_def noArgs_def noOptions_def
  resolveCredential_def resolveUrls_def resolveQuota_def truthy_def enumerateUrls_def
  cachePathOf_def checkAndSubmit_def checkAndSubmit2_def loadCache_def readEvents_def
  batch_def batch2_def batch_chunk_def batch2_chunk_def submissionQueue_def shouldBeSubmitted_def
  indexablePages_def statusKeys_def indexableStatuses2_def indexableStatuses_def classify_def
  retriesOnRateLimit_def QUOTA_def exampleStatus_def createChunks_small Let_def
  worker_settle_def worker2_settle_def worker_resume_def worker2_resume_def settleAll_step
  removeAt_def
  shouldRecheck_def shouldRecheck2_def CACHE_TIMEOUT_def exampleCache_def exampleDisk_def

lemma sim_submissionsPersist:
  "submissionsPersist (sim sitemaps sitemapUrls statusOf) (\<lambda>w url. url \<in> set (submitted w))"
  by (simp add: submissionsPersist_def sim_def)

section \<open>The claims about submission\<close>

text \<open>
  C4. In the submission loop an indexing request is issued for a URL exactly when a
  publish-metadata query for it returned 404: one pass of the loop makes the query and
  then the request if and only if the answer is 404, so over the whole loop a request
  for a URL occurs exactly when a query for it answered 404, and none occurs when
  every answer for it is below 400. When the external state is unchanged (no call
  removes a submission, a URL with a submission is answered below 400, and an indexing
  request creates the submission), a run of the pipeline that starts in the world
  another run left behind issues no indexing request for a URL the earlier run
  requested. This holds for both variants of the pipeline.
\<close>

theorem submission_idempotent:
  fixes c :: "'w collaborators" and evs :: "'e event list"
  assumes "answer = fst (getPublishMetadata c w tok u (retriesOnRateLimit q))"
    and "evs = fst (submitQueue c tok q queue w)"
    and "run1 = index c x files args env input options"
    and "run2 = index c (world run1) files' args' env' input' options'"
    and "alt1 = index2 c x afiles args env input options"
    and "alt2 = index2 c (world alt1) afiles' args' env' input' options'"
  shows "fst (submitQueue c tok q [u] w)
           = (GetPublishMetadata u (retriesOnRateLimit q) answer
               # (if answer = 404 then [RequestIndexing u] else []) :: 'e event list)
       \<and> (RequestIndexing url \<in> set evs
            \<longleftrightarrow> GetPublishMetadata url (retriesOnRateLimit q) 404 \<in> set evs)
       \<and> ((\<forall>k st. GetPublishMetadata url k st \<in> set evs \<longrightarrow> st < 400)
            \<longrightarrow> RequestIndexing url \<notin> set evs)
       \<and> (submissionsPersist c hasSubmission \<and> RequestIndexing url \<in> set (trace run1)
            \<longrightarrow> RequestIndexing url \<notin> set (trace run2))
       \<and> (submissionsPersist c hasSubmission \<and> RequestIndexing url \<in> set (trace alt1)
            \<longrightarrow> RequestIndexing url \<notin> set (trace alt2))"
proof -
  have one: "fst (submitQueue c tok q [u] w)
           = (GetPublishMetadata u (retriesOnRateLimit q) answer
               # (if answer = 404 then [RequestIndexing u] else []) :: 'e event list)"
    by (simp add: assms(1) Let_def case_prod_beta)
  have iff: "RequestIndexing url \<in> set evs
            \<longleftrightarrow> GetPublishMetadata url (retriesOnRateLimit q) 404 \<in> set evs"
    unfolding assms(2) by (rule submitQueue_request_iff)
  have below: "RequestIndexing url \<notin> set evs"
    if "\<forall>k st. GetPublishMetadata url k st \<in> set evs \<longrightarrow> st < 400"
  proof
    assume "RequestIndexing url \<in> set evs"
    with iff have "GetPublishMetadata url (retriesOnRateLimit q) 404 \<in> set evs" by simp
    with that have "(404 :: int) < 400" by blast
    then show False by simp
  qed
  have main: "RequestIndexing url \<notin> set (trace run2)"
    if "submissionsPersist c hasSubmission" "RequestIndexing url \<in> set (trace run1)"
  proof -
    from that have "hasSubmission (world run1) url"
      unfolding assms(3) by (rule index_requested)
    with that(1) show ?thesis
      unfolding assms(4) by (rule index_no_duplicate)
  qed
  have alt: "RequestIndexing url \<notin> set (trace alt2)"
    if "submissionsPersist c hasSubmission" "RequestIndexing url \<in> set (trace alt1)"
  proof -
    from that have "hasSubmission (world alt1) url"
      unfolding assms(5) by (rule index2_requested)
    with that(1) show ?thesis
      unfolding assms(6) by (rule index2_no_duplicate)
  qed
  from one iff below main alt show ?thesis by blast
qed

theorem submission_idempotent_witness:
  "submissionsPersist (sim [''sitemap''] [''/a'', ''/b'', ''/c''] exampleStatus)
     (\<lambda>w url. url \<in> set (submitted w))
   \<and> RequestIndexing ''/a''
       \<in> set (trace (index (sim [''sitemap''] [''/a'', ''/b'', ''/c''] exampleStatus) world0
                  emptyDisk noArgs noArgs (Some ''site'') noOptions))
   \<and> RequestIndexing ''/a''
       \<notin> set (trace (index (sim [''sitemap''] [''/a'', ''/b'', ''/c''] exampleStatus)
                  (world (index (sim [''sitemap''] [''/a'', ''/b'', ''/c''] exampleStatus) world0
                     emptyDisk noArgs noArgs (Some ''site'') noOptions))
                  (disk (index (sim [''sitemap''] [''/a'', ''/b'', ''/c''] exampleStatus) world0
                     emptyDisk noArgs noArgs (Some ''site'') noOptions))
                  noArgs noArgs (Some ''site'') noOptions))
   \<and> RequestIndexing ''/c''
       \<in> set (trace (index2 (sim [''sitemap''] [''/a'', ''/b'', ''/c''] exampleStatus) world0
                  emptyDisk noArgs noArgs (Some ''site'') noOptions))
   \<and> RequestIndexing ''/c''
       \<notin> set (trace (index2 (sim [''sitemap''] [''/a'', ''/b'', ''/c''] exampleStatus)
                  (world (index2 (sim [''sitemap''] [''/a'', ''/b'', ''/c''] exampleStatus) world0
                     emptyDisk noArgs noArgs (Some ''site'') noOptions))
                  (disk (index2 (sim [''sitemap''] [''/a'', ''/b'', ''/c''] exampleStatus) world0
                     emptyDisk noArgs noArgs (Some ''site'') noOptions))
                  noArgs noArgs (Some ''site'') noOptions))
   \<and> fst (submitQueue (sim [] [] exampleStatus) ''token'' \<lparr>rpmRetry = None\<rparr> [''/b'']
            \<lparr>clock = 0, submitted = [''/b'']\<rparr>)
       = [GetPublishMetadata ''/b'' 0 200 :: Page event]
   \<and> RequestIndexing ''/b''
       \<notin> set (fst (submitQueue (sim [] [] exampleStatus) ''token'' \<lparr>rpmRetry = None\<rparr> [''/b'']
                     \<lparr>clock = 0, submitted = [''/b'']\<rparr>) :: Page event list)"
proof -
  let ?c = "sim [''sitemap''] [''/a'', ''/b'', ''/c''] exampleStatus"
  let ?has = "\<lambda>w url. url \<in> set (submitted w)"
  let ?run1 = "index ?c world0 emptyDisk noArgs noArgs (Some ''site'') noOptions"
  let ?alt1 = "index2 ?c world0 emptyDisk noArgs noArgs (Some ''site'') noOptions"
  let ?evs = "fst (submitQueue (sim [] [] exampleStatus) ''token'' \<lparr>rpmRetry = None\<rparr> [''/b'']
                     \<lparr>clock = 0, submitted = [''/b'']\<rparr>) :: Page event list"
  have p: "submissionsPersist ?c ?has"
    by (rule sim_submissionsPersist)
  have r1: "RequestIndexing ''/a'' \<in> set (trace ?run1)"
    by (simp add: run_simps)
  have a1: "RequestIndexing ''/c'' \<in> set (trace ?alt1)"
    by (simp add: run_simps)
  have e: "?evs = [GetPublishMetadata ''/b'' 0 200]"
    by (simp add: run_simps)
  from submission_idempotent[OF refl refl refl refl refl refl,
      where c = ?c and hasSubmission = ?has and url = "''/a''" and x = world0
        and files = emptyDisk and args = noArgs and env = noArgs and input = "Some ''site''"
        and options = noOptions and files' = "disk ?run1" and args' = noArgs and env' = noArgs
        and input' = "Some ''site''" and options' = noOptions and 'e = Page] p r1
  have r2: "RequestIndexing ''/a''
       \<notin> set (trace (index ?c (world ?run1) (disk ?run1) noArgs noArgs (Some ''site'') noOptions))"
    by blast
  from submission_idempotent[OF refl refl refl refl refl refl,
      where c = ?c and hasSubmission = ?has and url = "''/c''" and x = world0
        and afiles = emptyDisk and args = noArgs and env = noArgs and input = "Some ''site''"
        and options = noOptions and afiles' = "disk ?alt1" and args' = noArgs and env' = noArgs
        and input' = "Some ''site''" and options' = noOptions and 'e = Page] p a1
  have a2: "RequestIndexing ''/c''
       \<notin> set (trace (index2 ?c (world ?alt1) (disk ?alt1) noArgs noArgs (Some ''site'') noOptions))"
    by blast
  have "\<forall>k st. GetPublishMetadata ''/b'' k st \<in> set ?evs \<longrightarrow> st < 400"
    unfolding e by simp
  with submission_idempotent[OF refl refl refl refl refl refl,
      where url = "''/b''" and c = "sim [] [] exampleStatus" and 'e = Page
        and tok = "''token''" and q = "\<lparr>rpmRetry = None\<rparr>" and queue = "[''/b'']"
        and w = "\<lparr>clock = 0, submitted = [''/b'']\<rparr>"]
  have b: "RequestIndexing ''/b'' \<notin> set ?evs"
    by blast
  from p r1 r2 a1 a2 e b show ?thesis by blast
qed

text \<open>
  C5. Every publish-metadata query of the submission loop is made with the retry
  budget \<open>QUOTA.rpm.retries\<close> = 3 when \<open>rpmRetry\<close> is enabled and with the budget 0
  when it is disabled or not set, one query per URL of the queue in queue order; in a
  run of either variant the switch is the resolved \<open>options.quota.rpmRetry\<close>. The
  waiting time configured beside the budget is 60000 ms, 60 seconds.
\<close>

theorem retry_budget_configuration:
  "metadataQueries (fst (submitQueue c tok q queue w))
     = map (\<lambda>url. (url, if rpmRetry q = Some True then 3 else 0)) queue
   \<and> (\<exists>queue1. metadataQueries (trace (index c1 w1 files1 args env input options))
        = map (\<lambda>url. (url, if rpmRetry (resolveQuota args env options) = Some True then 3 else 0))
            queue1)
   \<and> (\<exists>queue2. metadataQueries (trace (index2 c2 w2 files2 args env input options))
        = map (\<lambda>url. (url, if rpmRetry (resolveQuota args env options) = Some True then 3 else 0))
            queue2)
   \<and> retries QUOTA = 3
   \<and> waitingTime QUOTA = 60 * 1000"
proof -
  have budget: "retriesOnRateLimit q' = (if rpmRetry q' = Some True then 3 else 0)" for q'
    by (simp add: retriesOnRateLimit_def QUOTA_def)
  have loop: "metadataQueries (fst (submitQueue c tok q queue w))
     = map (\<lambda>url. (url, if rpmRetry q = Some True then 3 else 0)) queue"
    by (simp add: submitQueue_metadataQueries budget)
  have main: "\<exists>queue1. metadataQueries (trace (index c1 w1 files1 args env input options))
        = map (\<lambda>url. (url, if rpmRetry (resolveQuota args env options) = Some True then 3 else 0))
            queue1"
  proof (cases rule: prepare_cases[of c1 w1 args env input options])
    case (exit code w')
    then show ?thesis by (simp add: index_Inl)
  next
    case (go tok' site p urlList w')
    show ?thesis
    proof (cases "loadCache files1 p")
      case (Inl e)
      then show ?thesis
        by (simp add: index_Inr[OF go] checkAndSubmit_Thrown readEvents_metadataQueries)
    next
      case (Inr cached)
      from checkAndSubmit_shape[OF Inr, of c1 w' tok' site urlList "resolveQuota args env options"]
      show ?thesis
        by (auto simp: index_Inr[OF go] metadataQueries_append readEvents_metadataQueries
            metadataQueries_checks rebuilt_def budget)
    qed
  qed
  have alt: "\<exists>queue2. metadataQueries (trace (index2 c2 w2 files2 args env input options))
        = map (\<lambda>url. (url, if rpmRetry (resolveQuota args env options) = Some True then 3 else 0))
            queue2"
  proof (cases rule: prepare_cases[of c2 w2 args env input options])
    case (exit code w')
    then show ?thesis by (simp add: index2_Inl)
  next
    case (go tok' site p urlList w')
    show ?thesis
    proof (cases "loadCache files2 p")
      case (Inl e)
      then show ?thesis
        by (simp add: index2_Inr[OF go] checkAndSubmit2_Thrown readEvents_metadataQueries)
    next
      case (Inr cached)
      let ?st = "batch2 c2 tok' site urlList
                   \<lparr>pages = cached, pagesPerIndexingStatus = (\<lambda>_. []), cworld = w',
                    ctrace = readEvents files2 p\<rparr>"
      from batch2_checks[of c2 tok' site urlList "\<lparr>pages = cached, pagesPerIndexingStatus = (\<lambda>_. []), cworld = w',
                    ctrace = readEvents files2 p\<rparr>"]
      obtain checks where "ctrace ?st = readEvents files2 p @ checks" "list_all isCheck checks"
        by auto
      then show ?thesis
        by (auto simp: index2_Inr[OF go] checkAndSubmit2_Finished[OF Inr refl]
            metadataQueries_append readEvents_metadataQueries metadataQueries_checks
            submitQueue_metadataQueries budget)
    qed
  qed
  from loop main alt show ?thesis
    by (simp add: QUOTA_def)
qed

section \<open>Enumeration\<close>

lemma enumerateUrls_no_sitemaps:
  assumes "ou = None \<or> ou = Some []"
    and "\<And>x tok site. fst (fst (getSitemapUrls c x tok site)) = []"
  shows "fst (enumerateUrls c w tok site ou) = Inl 1"
  using assms by (auto simp: enumerateUrls_def Let_def case_prod_beta)

lemma prepare_no_sitemaps:
  assumes "resolveUrls args options = None \<or> resolveUrls args options = Some []"
    and "\<And>x tok site. fst (fst (getSitemapUrls c x tok site)) = []"
  shows "\<exists>w'. prepare c w args env input options = Inl (1, w')"
proof (cases rule: prepare_cases[of c w args env input options])
  case (exit code w')
  with prepare_Inl[OF exit] show ?thesis by simp
next
  case (go tok site p urlList w')
  from prepare_world[OF go] obtain x where
    "fst (enumerateUrls c x tok site (resolveUrls args options)) = Inr urlList"
    by blast
  with enumerateUrls_no_sitemaps[OF assms, of x tok site] show ?thesis by simp
qed

section \<open>The shape of a run, second variant\<close>

lemma worker2_dispatch_subset: "set (fst (worker2_dispatch c chunk st)) \<subseteq> set chunk"
  by (induction chunk arbitrary: st) (auto simp: Let_def case_prod_beta split: option.splits)

lemma batch2_checked:
  "\<exists>evs. ctrace (batch2 c tok site urlList st) = ctrace st @ evs \<and> list_all isCheck evs
     \<and> set (checkedUrls evs) \<subseteq> set urlList"
proof -
  have chunk: "\<exists>evs. ctrace (batch2_chunk c tok site chunk s) = ctrace s @ evs \<and> list_all isCheck evs
      \<and> set (checkedUrls evs) \<subseteq> set chunk"
    for chunk s
    using worker2_settle_checks[of c tok site "fst (worker2_dispatch c chunk s)" "snd (worker2_dispatch c chunk s)"]
      worker2_dispatch_subset[of c chunk s]
    by (auto simp: batch2_chunk_def case_prod_beta worker2_dispatch_ctrace)
  have "\<exists>evs. ctrace (batch2_chunks c tok site chunks s) = ctrace s @ evs \<and> list_all isCheck evs
      \<and> set (checkedUrls evs) \<subseteq> set (concat chunks)"
    for chunks s
  proof (induction chunks arbitrary: s)
    case Nil
    then show ?case by simp
  next
    case (Cons chunk rest)
    from chunk[of chunk s] obtain e1 where
      e1: "ctrace (batch2_chunk c tok site chunk s) = ctrace s @ e1" "list_all isCheck e1"
        "set (checkedUrls e1) \<subseteq> set chunk"
      by blast
    from Cons.IH[of "batch2_chunk c tok site chunk s"] obtain e2 where
      e2: "ctrace (batch2_chunks c tok site rest (batch2_chunk c tok site chunk s))
             = ctrace (batch2_chunk c tok site chunk s) @ e2" "list_all isCheck e2"
        "set (checkedUrls e2) \<subseteq> set (concat rest)"
      by blast
    from e1 e2 show ?case
      by (intro exI[of _ "e1 @ e2"]) (auto simp: checkedUrls_append)
  qed
  from this[of "createChunks 50 urlList" st] show ?thesis
    by (simp add: batch2_def concat_createChunks)
qed

lemma checkAndSubmit2_shape:
  assumes "loadCache files p = Inr cached"
  shows "\<exists>checks written subs.
           outcome (checkAndSubmit2 c w files tok site p urlList q) = Finished
         \<and> trace (checkAndSubmit2 c w files tok site p urlList q)
             = readEvents files p @ checks @ [WriteFileSync p written] @ subs
         \<and> list_all isCheck checks
         \<and> list_all isSubmission subs
         \<and> set (checkedUrls checks) \<subseteq> set urlList
         \<and> disk (checkAndSubmit2 c w files tok site p urlList q) = files(p \<mapsto> Parsed written)"
proof -
  let ?init = "\<lparr>pages = cached, pagesPerIndexingStatus = (\<lambda>_. []), cworld = w,
                    ctrace = readEvents files p\<rparr> :: ('a, StatusEntry) check_state"
  let ?st = "batch2 c tok site urlList ?init"
  from batch2_checked[of c tok site urlList ?init]
  obtain checks where ch: "ctrace ?st = readEvents files p @ checks"
    "list_all isCheck checks" "set (checkedUrls checks) \<subseteq> set urlList"
    by auto
  show ?thesis
    unfolding checkAndSubmit2_Finished[OF assms refl]
    using ch
    by (intro exI[of _ checks] exI[of _ "pages ?st"]
          exI[of _ "fst (submitQueue c tok q (indexablePages (pagesPerIndexingStatus ?st)) (cworld ?st))"])
       (simp add: submitQueue_isSubmission)
qed

lemma trace_shape_counts:
  assumes "tr = readEvents files p @ checks @ [WriteFileSync p written] @ subs"
    and "list_all isCheck checks" and "list_all isSubmission subs"
  shows "length (filter isWrite tr) = 1"
    and "checkedUrls tr = checkedUrls checks"
    and "metadataQueries tr = metadataQueries subs"
  using assms
  by (simp_all add: readEvents_no_write isCheck_not_write isSubmission_not_write
      checkedUrls_append readEvents_checkedUrls checkedUrls_submission
      metadataQueries_append readEvents_metadataQueries metadataQueries_checks)

lemma submissionQueue_member:
  "map_of ps url = Some page \<Longrightarrow> status page = Pending \<Longrightarrow> url \<in> set (submissionQueue ps)"
  by (auto simp: submissionQueue_def shouldBeSubmitted_def dest: map_of_SomeD intro: rev_image_eqI)

section \<open>The claims about whole runs\<close>

text \<open>
  C6 as the code has it. A run that finds no sitemap (and has no custom URL list) is
  fatal: it exits with code 1 before any status check, cache read or write, or
  submission, in both variants. A run whose enumeration ends with zero URLs without
  that exit (at least one sitemap, none of them listing a URL) is not fatal: unless
  the cache file is malformed the run finishes, makes no status check and writes the
  cache file once.
\<close>

theorem no_sitemaps_fatal:
  fixes c :: "'w collaborators"
  assumes "run = index c w files args env input options"
    and "alt = index2 c w afiles args env input options"
  shows "((resolveUrls args options = None \<or> resolveUrls args options = Some [])
            \<and> (\<forall>x tok site. fst (fst (getSitemapUrls c x tok site)) = [])
          \<longrightarrow> outcome run = Exited 1 \<and> trace run = [] \<and> disk run = files
              \<and> outcome alt = Exited 1 \<and> trace alt = [] \<and> disk alt = afiles)
       \<and> (prepare c w args env input options = Inr (tok, site, p, [], w')
            \<and> files p \<noteq> Some Malformed \<and> afiles p \<noteq> Some Malformed
          \<longrightarrow> outcome run = Finished \<and> checkedUrls (trace run) = []
              \<and> length (filter isWrite (trace run)) = 1
              \<and> outcome alt = Finished \<and> checkedUrls (trace alt) = []
              \<and> length (filter isWrite (trace alt)) = 1)"
proof -
  have fatal: "outcome run = Exited 1 \<and> trace run = [] \<and> disk run = files
              \<and> outcome alt = Exited 1 \<and> trace alt = [] \<and> disk alt = afiles"
    if "resolveUrls args options = None \<or> resolveUrls args options = Some []"
      and "\<forall>x tok site. fst (fst (getSitemapUrls c x tok site)) = []"
  proof -
    from that prepare_no_sitemaps[of args options c w env input]
    obtain w1 where "prepare c w args env input options = Inl (1, w1)"
      by blast
    then show ?thesis
      by (simp add: assms index_Inl index2_Inl)
  qed
  have proceeds: "outcome run = Finished \<and> checkedUrls (trace run) = []
              \<and> length (filter isWrite (trace run)) = 1
              \<and> outcome alt = Finished \<and> checkedUrls (trace alt) = []
              \<and> length (filter isWrite (trace alt)) = 1"
    if go: "prepare c w args env input options = Inr (tok, site, p, [], w')"
      and ok: "files p \<noteq> Some Malformed" "afiles p \<noteq> Some Malformed"
  proof -
    from ok(1) loadCache_cases[of files p] obtain cached where l1: "loadCache files p = Inr cached"
      by blast
    from ok(2) loadCache_cases[of afiles p] obtain cached2 where l2: "loadCache afiles p = Inr cached2"
      by blast
    from checkAndSubmit_shape[OF l1, of c w' tok site "[]" "resolveQuota args env options"]
    obtain checks written subs where
      s1: "outcome run = Finished"
        "trace run = readEvents files p @ checks @ [WriteFileSync p written] @ subs"
        "list_all isSubmission subs" "rebuilt cached checks written"
        "set (checkedUrls checks) \<subseteq> set []"
      unfolding assms(1) index_Inr[OF go] by blast
    from s1(4) have c1: "list_all isCheck checks" by (simp add: rebuilt_def)
    from checkAndSubmit2_shape[OF l2, of c w' tok site "[]" "resolveQuota args env options"]
    obtain checks2 written2 subs2 where
      s2: "outcome alt = Finished"
        "trace alt = readEvents afiles p @ checks2 @ [WriteFileSync p written2] @ subs2"
        "list_all isCheck checks2" "list_all isSubmission subs2"
        "set (checkedUrls checks2) \<subseteq> set []"
      unfolding assms(2) index2_Inr[OF go] by blast
    from s1(1,5) s2(1,5)
      trace_shape_counts(1,2)[OF s1(2) c1 s1(3)]
      trace_shape_counts(1,2)[OF s2(2) s2(3) s2(4)]
    show ?thesis by simp
  qed
  from fatal proceeds show ?thesis by blast
qed

theorem no_sitemaps_fatal_witness:
  "resolveUrls noArgs noOptions = None
   \<and> fst (fst (getSitemapUrls (sim [] [] exampleStatus) world0 ''token'' ''site'')) = []
   \<and> outcome (index (sim [] [] exampleStatus) world0 exampleDisk noArgs noArgs (Some ''site'')
        noOptions) = Exited 1
   \<and> trace (index (sim [] [] exampleStatus) world0 exampleDisk noArgs noArgs (Some ''site'')
        noOptions) = []
   \<and> outcome (index2 (sim [] [] exampleStatus) world0 emptyDisk noArgs noArgs (Some ''site'')
        noOptions) = Exited 1
   \<and> prepare (sim [''sitemap''] [] exampleStatus) world0 noArgs noArgs (Some ''site'') noOptions
       = Inr (''token'', ''site'', ''.cache/site.json'', [], world0)
   \<and> outcome (index (sim [''sitemap''] [] exampleStatus) world0 exampleDisk noArgs noArgs
        (Some ''site'') noOptions) = Finished
   \<and> length (filter isWrite (trace (index (sim [''sitemap''] [] exampleStatus) world0 exampleDisk
        noArgs noArgs (Some ''site'') noOptions))) = 1
   \<and> outcome (index2 (sim [''sitemap''] [] exampleStatus) world0 emptyDisk noArgs noArgs
        (Some ''site'') noOptions) = Finished"
proof -
  have a: "resolveUrls noArgs noOptions = None"
    by (simp add: run_simps)
  have b: "\<forall>x tok site. fst (fst (getSitemapUrls (sim [] [] exampleStatus) x tok site)) = []"
    by (simp add: sim_def)
  have c: "prepare (sim [''sitemap''] [] exampleStatus) world0 noArgs noArgs (Some ''site'') noOptions
       = Inr (''token'', ''site'', ''.cache/site.json'', [], world0)"
    by (simp add: run_simps)
  have d: "exampleDisk ''.cache/site.json'' \<noteq> Some Malformed"
    "(emptyDisk :: string \<Rightarrow> StatusEntry cache_file option) ''.cache/site.json'' \<noteq> Some Malformed"
    by (simp_all add: run_simps)
  from no_sitemaps_fatal[OF refl refl, where args = noArgs and options = noOptions
      and c = "sim [] [] exampleStatus" and w = world0 and files = exampleDisk and env = noArgs
      and input = "Some ''site''" and afiles = emptyDisk] a b
  have 1: "outcome (index (sim [] [] exampleStatus) world0 exampleDisk noArgs noArgs (Some ''site'')
        noOptions) = Exited 1
   \<and> trace (index (sim [] [] exampleStatus) world0 exampleDisk noArgs noArgs (Some ''site'')
        noOptions) = []
   \<and> outcome (index2 (sim [] [] exampleStatus) world0 emptyDisk noArgs noArgs (Some ''site'')
        noOptions) = Exited 1"
    by blast
  from no_sitemaps_fatal[OF refl refl, where args = noArgs and options = noOptions
      and c = "sim [''sitemap''] [] exampleStatus" and w = world0 and files = exampleDisk
      and env = noArgs and input = "Some ''site''" and afiles = emptyDisk
      and tok = "''token''" and site = "''site''" and p = "''.cache/site.json''"
      and w' = world0] c d
  have 2: "outcome (index (sim [''sitemap''] [] exampleStatus) world0 exampleDisk noArgs noArgs
        (Some ''site'') noOptions) = Finished
   \<and> length (filter isWrite (trace (index (sim [''sitemap''] [] exampleStatus) world0 exampleDisk
        noArgs noArgs (Some ''site'') noOptions))) = 1
   \<and> outcome (index2 (sim [''sitemap''] [] exampleStatus) world0 emptyDisk noArgs noArgs
        (Some ''site'') noOptions) = Finished"
    by blast
  from a b c 1 2 show ?thesis by simp
qed

text \<open>
  C6 as the claim states it fails. With one sitemap that lists no URL, enumeration
  yields zero URLs and the run is not terminated: with no cache file it writes an empty
  cache and finishes; with a cache file holding a Pending entry it writes the cache and
  goes on to request indexing for that entry.
\<close>

theorem zero_urls_fatal_counterexample:
  "prepare (sim [''sitemap''] [] exampleStatus) world0 noArgs noArgs (Some ''site'') noOptions
       = Inr (''token'', ''site'', ''.cache/site.json'', [], world0)
   \<and> outcome (index (sim [''sitemap''] [] exampleStatus) world0 emptyDisk noArgs noArgs
        (Some ''site'') noOptions) = Finished
   \<and> trace (index (sim [''sitemap''] [] exampleStatus) world0 emptyDisk noArgs noArgs
        (Some ''site'') noOptions) = [WriteFileSync ''.cache/site.json'' []]
   \<and> outcome (index (sim [''sitemap''] [] exampleStatus) world0 exampleDisk noArgs noArgs
        (Some ''site'') noOptions) = Finished
   \<and> trace (index (sim [''sitemap''] [] exampleStatus) world0 exampleDisk noArgs noArgs
        (Some ''site'') noOptions)
       = [ReadFileSync ''.cache/site.json'',
          WriteFileSync ''.cache/site.json'' exampleCache,
          GetPublishMetadata ''/old'' 0 404,
          RequestIndexing ''/old'']
   \<and> outcome (index2 (sim [''sitemap''] [] exampleStatus) world0 emptyDisk noArgs noArgs
        (Some ''site'') noOptions) = Finished
   \<and> trace (index2 (sim [''sitemap''] [] exampleStatus) world0 emptyDisk noArgs noArgs
        (Some ''site'') noOptions) = [WriteFileSync ''.cache/site.json'' []]"
  by (simp add: run_simps)

text \<open>
  C7. Cache lifecycle of the main variant. Loading a missing cache file gives the
  empty mapping and does not fail, and loading a file that parses gives its content.
  A run that finishes has loaded the mapping from its per-site file and has the
  events: the read of the cache file if it exists, then status checks only, then one
  write of the cache file, then publish-metadata queries and indexing requests only; so
  the file is written exactly once, after every status check and before any
  submission. What is written is the in-memory mapping, the mapping loaded from the
  file overlaid with the checks of this run, and it replaces the content of the file.
  A run that ends by a fatal exit has no event at all, and a run whose cache file is
  malformed does not finish and writes nothing.
\<close>

theorem cache_lifecycle:
  fixes c :: "'w collaborators"
  assumes "run = index c w files args env input options"
  shows "(\<forall>path. files path = None \<longrightarrow> loadCache files path = Inr [])
       \<and> (\<forall>path kvs. files path = Some (Parsed kvs) \<longrightarrow> loadCache files path = Inr kvs)
       \<and> (outcome run = Finished \<longrightarrow>
            (\<exists>inp p cached checks written subs.
               input = Some inp \<and> p = cachePathOf c (convertToSiteUrl c inp)
               \<and> (files p = None \<and> cached = [] \<or> files p = Some (Parsed cached))
               \<and> trace run
                   = (if files p = None then [] else [ReadFileSync p])
                     @ checks @ [WriteFileSync p written] @ subs
               \<and> list_all isCheck checks \<and> list_all isSubmission subs
               \<and> rebuilt cached checks written
               \<and> disk run = files(p \<mapsto> Parsed written)))
       \<and> (outcome run = Finished \<longrightarrow> length (filter isWrite (trace run)) = 1)
       \<and> (\<forall>code. outcome run = Exited code \<longrightarrow> trace run = [] \<and> disk run = files)
       \<and> (\<forall>inp. input = Some inp
              \<and> files (cachePathOf c (convertToSiteUrl c inp)) = Some Malformed
            \<longrightarrow> outcome run \<noteq> Finished \<and> filter isWrite (trace run) = []
                \<and> disk run = files)"
proof -
  have missing: "loadCache files path = Inr []" if "files path = None" for path
    using that by (simp add: loadCache_def)
  have present: "loadCache files path = Inr kvs" if "files path = Some (Parsed kvs)" for path kvs
    using that by (simp add: loadCache_def)
  have reads: "readEvents files path = (if files path = None then [] else [ReadFileSync path])"
    for path
    by (simp add: readEvents_def split: option.splits)
  show ?thesis
  proof (cases rule: prepare_cases[of c w args env input options])
    case (exit code w')
    then have "run = \<lparr>outcome = Exited code, trace = [], world = w', disk = files\<rparr>"
      by (simp add: assms index_Inl)
    with missing present show ?thesis by simp
  next
    case (go tok site p urlList w')
    from prepare_Inr[OF go] obtain inp where
      inp: "input = Some inp" "p = cachePathOf c (convertToSiteUrl c inp)"
      by blast
    have run: "run = checkAndSubmit c w' files tok site p urlList (resolveQuota args env options)"
      by (simp add: assms index_Inr[OF go])
    show ?thesis
    proof (cases "loadCache files p")
      case (Inl e)
      then have mal: "files p = Some Malformed"
        using loadCache_cases[of files p] by auto
      have "outcome run = Thrown" "filter isWrite (trace run) = []" "disk run = files"
        using Inl by (simp_all add: run checkAndSubmit_Thrown readEvents_no_write)
      with inp mal missing present show ?thesis
        by (simp add: run checkAndSubmit_Thrown[OF Inl] reads)
    next
      case (Inr cached)
      then have content: "files p = None \<and> cached = [] \<or> files p = Some (Parsed cached)"
        by (auto simp: loadCache_def split: option.splits cache_file.splits)
      then have wellformed: "files p \<noteq> Some Malformed"
        by auto
      from checkAndSubmit_shape[OF Inr, of c w' tok site urlList "resolveQuota args env options"]
      obtain checks written subs where
        s: "outcome run = Finished"
          "trace run = readEvents files p @ checks @ [WriteFileSync p written] @ subs"
          "list_all isSubmission subs" "rebuilt cached checks written"
          "disk run = files(p \<mapsto> Parsed written)"
        unfolding run by blast
      from s(4) have ch: "list_all isCheck checks" by (simp add: rebuilt_def)
      have once: "length (filter isWrite (trace run)) = 1"
        using trace_shape_counts(1)[OF s(2) ch s(3)] .
      have shape: "\<exists>inp p cached checks written subs.
               input = Some inp \<and> p = cachePathOf c (convertToSiteUrl c inp)
               \<and> (files p = None \<and> cached = [] \<or> files p = Some (Parsed cached))
               \<and> trace run
                   = (if files p = None then [] else [ReadFileSync p])
                     @ checks @ [WriteFileSync p written] @ subs
               \<and> list_all isCheck checks \<and> list_all isSubmission subs
               \<and> rebuilt cached checks written
               \<and> disk run = files(p \<mapsto> Parsed written)"
        using inp content s ch unfolding reads by blast
      from missing present s(1) once shape inp wellformed show ?thesis by simp
    qed
  qed
qed

theorem cache_lifecycle_witness:
  "emptyDisk ''.cache/site.json'' = (None :: Page cache_file option)
   \<and> loadCache emptyDisk ''.cache/site.json'' = Inr ([] :: (string \<times> Page) list)
   \<and> exampleDisk ''.cache/site.json'' = Some (Parsed exampleCache)
   \<and> loadCache exampleDisk ''.cache/site.json'' = Inr exampleCache
   \<and> outcome (index (sim [''sitemap''] [''/a'', ''/b'', ''/c''] exampleStatus) world0 exampleDisk
        noArgs noArgs (Some ''site'') noOptions) = Finished
   \<and> length (filter isWrite (trace (index (sim [''sitemap''] [''/a'', ''/b'', ''/c''] exampleStatus)
        world0 exampleDisk noArgs noArgs (Some ''site'') noOptions))) = 1
   \<and> trace (index (sim [''sitemap''] [''/a'', ''/b'', ''/c''] exampleStatus) world0 exampleDisk
        noArgs noArgs (Some ''site'') noOptions)
       = [ReadFileSync ''.cache/site.json'',
          GetPageIndexingStatus ''/a'' DiscoveredCurrentlyNotIndexed,
          GetPageIndexingStatus ''/b'' SubmittedAndIndexed,
          GetPageIndexingStatus ''/c'' RateLimited,
          WriteFileSync ''.cache/site.json''
            [(''/old'', \<lparr>status = Pending, indexingStatus = CrawledCurrentlyNotIndexed,
                        lastCheckedAt = 900\<rparr>),
             (''/a'', \<lparr>status = Pending, indexingStatus = DiscoveredCurrentlyNotIndexed,
                      lastCheckedAt = 1010\<rparr>),
             (''/b'', \<lparr>status = Completed, indexingStatus = SubmittedAndIndexed,
                      lastCheckedAt = 1021\<rparr>),
             (''/c'', \<lparr>status = Failed, indexingStatus = RateLimited, lastCheckedAt = 1032\<rparr>)],
          GetPublishMetadata ''/old'' 0 404,
          RequestIndexing ''/old'',
          GetPublishMetadata ''/a'' 0 404,
          RequestIndexing ''/a'']
   \<and> outcome (index (sim [] [] exampleStatus) world0 exampleDisk noArgs noArgs (Some ''site'')
        noOptions) = Exited 1
   \<and> trace (index (sim [] [] exampleStatus) world0 exampleDisk noArgs noArgs (Some ''site'')
        noOptions) = []
   \<and> disk (index (sim [] [] exampleStatus) world0 exampleDisk noArgs noArgs (Some ''site'')
        noOptions) = exampleDisk
   \<and> (emptyDisk(''.cache/site.json'' \<mapsto> Malformed)) ''.cache/site.json''
       = (Some Malformed :: Page cache_file option)
   \<and> outcome (index (sim [''sitemap''] [''/a''] exampleStatus) world0
        (emptyDisk(''.cache/site.json'' \<mapsto> Malformed)) noArgs noArgs (Some ''site'') noOptions)
       \<noteq> Finished
   \<and> filter isWrite (trace (index (sim [''sitemap''] [''/a''] exampleStatus) world0
        (emptyDisk(''.cache/site.json'' \<mapsto> Malformed)) noArgs noArgs (Some ''site'') noOptions))
       = []"
proof -
  let ?c = "sim [''sitemap''] [''/a'', ''/b'', ''/c''] exampleStatus"
  let ?run = "index ?c world0 exampleDisk noArgs noArgs (Some ''site'') noOptions"
  let ?exit = "index (sim [] [] exampleStatus) world0 exampleDisk noArgs noArgs (Some ''site'')
        noOptions"
  let ?bad = "emptyDisk(''.cache/site.json'' \<mapsto> Malformed) :: string \<Rightarrow> Page cache_file option"
  let ?thrown = "index (sim [''sitemap''] [''/a''] exampleStatus) world0 ?bad noArgs noArgs
        (Some ''site'') noOptions"
  have a: "emptyDisk ''.cache/site.json'' = (None :: Page cache_file option)"
    by (simp add: emptyDisk_def)
  have b: "exampleDisk ''.cache/site.json'' = Some (Parsed exampleCache)"
    by (simp add: exampleDisk_def)
  have f: "outcome ?run = Finished"
    by (simp add: run_simps)
  have tr: "trace ?run
       = [ReadFileSync ''.cache/site.json'',
          GetPageIndexingStatus ''/a'' DiscoveredCurrentlyNotIndexed,
          GetPageIndexingStatus ''/b'' SubmittedAndIndexed,
          GetPageIndexingStatus ''/c'' RateLimited,
          WriteFileSync ''.cache/site.json''
            [(''/old'', \<lparr>status = Pending, indexingStatus = CrawledCurrentlyNotIndexed,
                        lastCheckedAt = 900\<rparr>),
             (''/a'', \<lparr>status = Pending, indexingStatus = DiscoveredCurrentlyNotIndexed,
                      lastCheckedAt = 1010\<rparr>),
             (''/b'', \<lparr>status = Completed, indexingStatus = SubmittedAndIndexed,
                      lastCheckedAt = 1021\<rparr>),
             (''/c'', \<lparr>status = Failed, indexingStatus = RateLimited, lastCheckedAt = 1032\<rparr>)],
          GetPublishMetadata ''/old'' 0 404,
          RequestIndexing ''/old'',
          GetPublishMetadata ''/a'' 0 404,
          RequestIndexing ''/a'']"
    by (simp add: run_simps)
  have e: "outcome ?exit = Exited 1"
    by (simp add: run_simps)
  have m: "?bad ''.cache/site.json'' = Some Malformed"
    "?bad (cachePathOf (sim [''sitemap''] [''/a''] exampleStatus)
        (convertToSiteUrl (sim [''sitemap''] [''/a''] exampleStatus) ''site'')) = Some Malformed"
    by (simp_all add: cachePathOf_def sim_def)
  from cache_lifecycle[OF refl, where c = ?c and w = world0
      and files = "emptyDisk :: string \<Rightarrow> Page cache_file option" and args = noArgs
      and env = noArgs and input = "Some ''site''" and options = noOptions] a
  have 1: "loadCache emptyDisk ''.cache/site.json'' = Inr ([] :: (string \<times> Page) list)"
    by blast
  from cache_lifecycle[OF refl, where c = ?c and w = world0 and files = exampleDisk
      and args = noArgs and env = noArgs and input = "Some ''site''" and options = noOptions] b f
  have 2: "loadCache exampleDisk ''.cache/site.json'' = Inr exampleCache"
    "length (filter isWrite (trace ?run)) = 1"
    by blast+
  from cache_lifecycle[OF refl, where c = "sim [] [] exampleStatus"
      and w = world0 and files = exampleDisk and args = noArgs and env = noArgs
      and input = "Some ''site''" and options = noOptions] e
  have 3: "trace ?exit = []" "disk ?exit = exampleDisk"
    by blast+
  from cache_lifecycle[OF refl, where c = "sim [''sitemap''] [''/a''] exampleStatus"
      and w = world0 and files = ?bad and args = noArgs and env = noArgs
      and input = "Some ''site''" and options = noOptions] m(2)
  have 4: "outcome ?thrown \<noteq> Finished" "filter isWrite (trace ?thrown) = []"
    by blast+
  from a b f tr e m(1) 1 2 3 4 show ?thesis by (intro conjI)
qed

text \<open>
  C10. In the main variant the submission queue is the list of the keys of the whole
  in-memory mapping whose entry is Pending: the publish-metadata queries of the run are
  made for exactly these URLs, in key order. So a URL with a Pending entry in the loaded
  cache that is not among the URLs enumerated in this run is not checked and is queued,
  and a URL with a Pending entry that is fresh at every reading of the clock is not
  checked and is queued, whether or not this run enumerated it.
\<close>

theorem queue_from_cache:
  fixes c :: "'w collaborators"
  assumes "prepare c w args env input options = Inr (tok, site, p, urlList, w')"
    and "loadCache files p = Inr cached"
    and "run = index c w files args env input options"
  shows "(\<exists>checks written subs.
            trace run = readEvents files p @ checks @ [WriteFileSync p written] @ subs
            \<and> rebuilt cached checks written
            \<and> set (checkedUrls checks) \<subseteq> set urlList
            \<and> list_all isSubmission subs
            \<and> map fst (metadataQueries (trace run)) = submissionQueue written)
       \<and> (\<forall>url page. map_of cached url = Some page \<and> status page = Pending \<and> url \<notin> set urlList
            \<longrightarrow> url \<notin> set (checkedUrls (trace run))
                \<and> url \<in> set (map fst (metadataQueries (trace run))))
       \<and> (\<forall>url page. map_of cached url = Some page \<and> status page = Pending
              \<and> (\<forall>x. \<not> shouldRecheck (fst (dateNow c x)) page)
            \<longrightarrow> url \<notin> set (checkedUrls (trace run))
                \<and> url \<in> set (map fst (metadataQueries (trace run))))"
proof -
  let ?q = "resolveQuota args env options"
  let ?init = "\<lparr>pages = cached, pagesPerIndexingStatus = (\<lambda>_. []), cworld = w',
                ctrace = readEvents files p\<rparr> :: ('w, Page) check_state"
  let ?st = "batch c tok site urlList ?init"
  let ?subs = "fst (submitQueue c tok ?q (submissionQueue (pages ?st)) (cworld ?st)) :: Page event list"
  have run: "trace run = ctrace ?st @ [WriteFileSync p (pages ?st)] @ ?subs"
    by (simp add: assms(3) index_Inr[OF assms(1)] checkAndSubmit_Finished[OF assms(2) refl])
  from batch_rebuilt[of c tok site urlList cached "\<lambda>_. []" w' "readEvents files p"]
  obtain checks where ch: "ctrace ?st = readEvents files p @ checks"
    "rebuilt cached checks (pages ?st)" "set (checkedUrls checks) \<subseteq> set urlList"
    by blast
  from ch(2) have isc: "list_all isCheck checks" by (simp add: rebuilt_def)
  have tr: "trace run = readEvents files p @ checks @ [WriteFileSync p (pages ?st)] @ ?subs"
    using run ch(1) by simp
  have subs: "list_all isSubmission ?subs"
    by (rule submitQueue_isSubmission)
  have checked: "checkedUrls (trace run) = checkedUrls checks"
    using trace_shape_counts(2)[OF tr isc subs] .
  have queue: "map fst (metadataQueries (trace run)) = submissionQueue (pages ?st)"
    using trace_shape_counts(3)[OF tr isc subs]
    by (simp add: submitQueue_metadataQueries comp_def)
  have shape: "\<exists>checks written subs.
            trace run = readEvents files p @ checks @ [WriteFileSync p written] @ subs
            \<and> rebuilt cached checks written
            \<and> set (checkedUrls checks) \<subseteq> set urlList
            \<and> list_all isSubmission subs
            \<and> map fst (metadataQueries (trace run)) = submissionQueue written"
    using tr ch(2,3) subs queue by blast
  have absent: "url \<notin> set (checkedUrls (trace run))
                \<and> url \<in> set (map fst (metadataQueries (trace run)))"
    if "map_of cached url = Some page" "status page = Pending" "url \<notin> set urlList"
    for url page
  proof -
    from that(3) ch(3) have n: "url \<notin> set (checkedUrls checks)" by blast
    with ch(2) that(1) have "map_of (pages ?st) url = Some page"
      by (simp add: rebuilt_def)
    from submissionQueue_member[OF this that(2)] n show ?thesis
      by (simp only: checked queue) simp
  qed
  have fresh: "url \<notin> set (checkedUrls (trace run))
                \<and> url \<in> set (map fst (metadataQueries (trace run)))"
    if "map_of cached url = Some page" "status page = Pending"
      "\<forall>x. \<not> shouldRecheck (fst (dateNow c x)) page"
    for url page
  proof -
    have 1: "map_of (pages ?init) url = Some page" using that(1) by simp
    have 2: "\<not> shouldRecheck (fst (dateNow c x)) page" for x using that(3) by simp
    have 3: "url \<notin> set (checkedUrls (ctrace ?init))" by (simp add: readEvents_checkedUrls)
    from batch_chunks_fresh[OF 1 2 3, of tok site "createChunks 50 urlList"]
    have f: "map_of (pages ?st) url = Some page" "url \<notin> set (checkedUrls (ctrace ?st))"
      by (simp_all add: batch_def)
    from f(2) ch(1) have n: "url \<notin> set (checkedUrls checks)"
      by (simp add: checkedUrls_append)
    from submissionQueue_member[OF f(1) that(2)] n show ?thesis
      by (simp only: checked queue) simp
  qed
  from shape absent fresh show ?thesis by blast
qed

theorem queue_from_cache_witness:
  "prepare ((sim [''sitemap''] [''/a''] exampleStatus)\<lparr>dateNow := (\<lambda>w. (1000, w))\<rparr>) world0
       noArgs noArgs (Some ''site'') noOptions
     = Inr (''token'', ''site'', ''.cache/site.json'', [''/a''], world0)
   \<and> loadCache exampleDisk ''.cache/site.json'' = Inr exampleCache
   \<and> map_of exampleCache ''/old''
       = Some \<lparr>status = Pending, indexingStatus = CrawledCurrentlyNotIndexed, lastCheckedAt = 900\<rparr>
   \<and> ''/old'' \<notin> set [''/a'']
   \<and> \<not> shouldRecheck 1000
         \<lparr>status = Pending, indexingStatus = CrawledCurrentlyNotIndexed, lastCheckedAt = 900\<rparr>
   \<and> ''/old'' \<notin> set (checkedUrls (trace (index
         ((sim [''sitemap''] [''/a''] exampleStatus)\<lparr>dateNow := (\<lambda>w. (1000, w))\<rparr>) world0
         exampleDisk noArgs noArgs (Some ''site'') noOptions)))
   \<and> ''/old'' \<in> set (map fst (metadataQueries (trace (index
         ((sim [''sitemap''] [''/a''] exampleStatus)\<lparr>dateNow := (\<lambda>w. (1000, w))\<rparr>) world0
         exampleDisk noArgs noArgs (Some ''site'') noOptions))))"
proof -
  let ?c = "(sim [''sitemap''] [''/a''] exampleStatus)\<lparr>dateNow := (\<lambda>w. (1000, w))\<rparr>"
  let ?page = "\<lparr>status = Pending, indexingStatus = CrawledCurrentlyNotIndexed, lastCheckedAt = 900\<rparr>"
  have a: "prepare ?c world0 noArgs noArgs (Some ''site'') noOptions
     = Inr (''token'', ''site'', ''.cache/site.json'', [''/a''], world0)"
    by (simp add: run_simps)
  have b: "loadCache exampleDisk ''.cache/site.json'' = Inr exampleCache"
    by (simp add: run_simps)
  have c: "map_of exampleCache ''/old'' = Some ?page" "status ?page = Pending"
    "''/old'' \<notin> set [''/a'']"
    by (simp_all add: exampleCache_def)
  have d: "\<not> shouldRecheck 1000 ?page"
    by (simp add: run_simps)
  then have e: "\<forall>x. \<not> shouldRecheck (fst (dateNow ?c x)) ?page"
    by (simp add: sim_def)
  from queue_from_cache[OF a b refl] c e
  have "''/old'' \<notin> set (checkedUrls (trace (index ?c world0 exampleDisk noArgs noArgs
            (Some ''site'') noOptions)))
      \<and> ''/old'' \<in> set (map fst (metadataQueries (trace (index ?c world0 exampleDisk noArgs noArgs
            (Some ''site'') noOptions))))"
    by blast
  with a b c d show ?thesis by simp
qed

section \<open>The scenario of three URLs\<close>









end
